theory Spec2Isabelle
  imports Complex_Main "HOL-Library.Word"
begin

section \<open>The machine as a parameter\<close>

text \<open>
  What \<^verbatim>\<open>make([]T, n)\<close> does with a positive length \<open>n\<close> is decided by the Go runtime:
  it allocates the slice, or it panics because the length is beyond the limit of the
  platform for elements of that size (\<^verbatim>\<open>makeslice: len out of range\<close>), or the process
  has no memory left, which is fatal. The program makes slices of four element types.
\<close>

datatype elem_type = T_uint32 | T_float64 | T_slice_uint32 | T_slice_float64

datatype allocation = Allocated | LenOutOfRange | OutOfMemory

text \<open>
  The program computes with Go's \<^verbatim>\<open>float64\<close> and \<^verbatim>\<open>complex128\<close>. The operations it
  uses are collected in a record, together with the decision of the runtime on an
  allocation, and every function of the program that depends on either takes that record
  as its first argument, so that a theorem stated for every \<open>F\<close> holds whatever the
  rounding of the machine and the memory of the process are. \<open>MapIntToFloat\<close> is called
  by \<^verbatim>\<open>Generate\<close> but is not defined in \<^verbatim>\<open>mandelbrot.go\<close>; it is a field of the same
  record.
\<close>

record 'f machine =
  fconst :: "rat \<Rightarrow> 'f"                \<comment> \<open>a numeric constant converted to \<^verbatim>\<open>float64\<close>\<close>
  f_of_int :: "int \<Rightarrow> 'f"             \<comment> \<open>\<^verbatim>\<open>float64(n)\<close> for an integer \<open>n\<close>\<close>
  fadd :: "'f \<Rightarrow> 'f \<Rightarrow> 'f"
  fsub :: "'f \<Rightarrow> 'f \<Rightarrow> 'f"
  fmul :: "'f \<Rightarrow> 'f \<Rightarrow> 'f"
  fdiv :: "'f \<Rightarrow> 'f \<Rightarrow> 'f"
  feq :: "'f \<Rightarrow> 'f \<Rightarrow> bool"         \<comment> \<open>\<^verbatim>\<open>==\<close>\<close>
  fle :: "'f \<Rightarrow> 'f \<Rightarrow> bool"         \<comment> \<open>\<^verbatim>\<open><=\<close>\<close>
  fgt :: "'f \<Rightarrow> 'f \<Rightarrow> bool"         \<comment> \<open>\<^verbatim>\<open>>\<close>\<close>
  math_Sqrt :: "'f \<Rightarrow> 'f"
  math_Pow :: "'f \<Rightarrow> 'f \<Rightarrow> 'f"
  cmplx_Pow :: "'f \<times> 'f \<Rightarrow> 'f \<times> 'f \<Rightarrow> 'f \<times> 'f"
  cmplx_Abs :: "'f \<times> 'f \<Rightarrow> 'f"
  MapIntToFloat :: "int \<Rightarrow> int \<Rightarrow> int \<Rightarrow> 'f \<Rightarrow> 'f \<Rightarrow> 'f"
  runtime_make :: "elem_type \<Rightarrow> int \<Rightarrow> allocation"   \<comment> \<open>\<^verbatim>\<open>make\<close> of a positive length\<close>

text \<open>A \<^verbatim>\<open>complex128\<close> is a pair of doubles: real part, imaginary part.\<close>

type_synonym 'f complex128 = "'f \<times> 'f"

definition cconst :: "'f machine \<Rightarrow> rat \<Rightarrow> 'f complex128" where
  "cconst F q = (fconst F q, fconst F 0)"

definition cadd :: "'f machine \<Rightarrow> 'f complex128 \<Rightarrow> 'f complex128 \<Rightarrow> 'f complex128" where
  "cadd F u v = (fadd F (fst u) (fst v), fadd F (snd u) (snd v))"

definition ceq :: "'f machine \<Rightarrow> 'f complex128 \<Rightarrow> 'f complex128 \<Rightarrow> bool" where
  "ceq F u v = (feq F (fst u) (fst v) \<and> feq F (snd u) (snd v))"

section \<open>The escape-time evaluator\<close>

definition mandelbrotEscapeRadius :: rat where
  "mandelbrotEscapeRadius = 2"

definition pointInCardioid :: "'f machine \<Rightarrow> 'f \<Rightarrow> 'f \<Rightarrow> bool" where
  "pointInCardioid F a b =
     (let p = math_Sqrt F (fadd F (math_Pow F (fsub F a (fconst F (1/4))) (fconst F 2))
                                  (math_Pow F b (fconst F 2)));
          comp = fadd F (fsub F p (fmul F (fconst F 2) (math_Pow F p (fconst F 2))))
                        (fconst F (1/4))
      in fle F a comp)"

definition pointInPeriod2Bulb :: "'f machine \<Rightarrow> 'f \<Rightarrow> 'f \<Rightarrow> bool" where
  "pointInPeriod2Bulb F a b =
     fle F (fadd F (math_Pow F (fadd F a (fconst F 1)) (fconst F 2)) (math_Pow F b (fconst F 2)))
           (fconst F (1/16))"

text \<open>
  The loop of \<^verbatim>\<open>pointInSet\<close>: \<open>i\<close> is the loop counter, \<open>last0\<close>, \<open>last1\<close> and \<open>cur\<close>
  are the three local variables as they stand when the loop condition is tested.
\<close>

function pointInSet_loop ::
  "'f machine \<Rightarrow> 'f complex128 \<Rightarrow> int \<Rightarrow> int \<Rightarrow> 'f complex128 \<Rightarrow> 'f complex128 \<Rightarrow>
   'f complex128 \<Rightarrow> int" where
  "pointInSet_loop F val maxIter i last0 last1 cur =
     (if i < maxIter then
        (let cur' = cadd F (cmplx_Pow F cur (cconst F 2)) val in
         if ceq F cur' last0 \<or> ceq F cur' last1 then maxIter
         else if fgt F (cmplx_Abs F cur') (fconst F mandelbrotEscapeRadius) then i
         else pointInSet_loop F val maxIter (i + 1) cur' last0 cur')
      else maxIter)"
  by pat_completeness auto
termination
  by (relation "measure (\<lambda>(F, val, maxIter, i, last0, last1, cur). nat (maxIter - i))") auto

declare pointInSet_loop.simps [simp del]

definition pointInSet :: "'f machine \<Rightarrow> 'f complex128 \<Rightarrow> int \<Rightarrow> int" where
  "pointInSet F val maxIter =
     (let x = fst val; y = snd val in
      if pointInCardioid F x y \<or> pointInPeriod2Bulb F x y then maxIter
      else pointInSet_loop F val maxIter 0 (cconst F 0) (cconst F 0) (cconst F 0))"

section \<open>The view and its configuration\<close>

text \<open>
  None of the functions of the program returns an error value. What can go wrong at run
  time is a panic, from \<^verbatim>\<open>make\<close> with a length out of range or from an index out of
  range, and the fatal error of a process out of memory.
\<close>

datatype error = PanicMakeSliceLen | PanicIndexOutOfRange | FatalOutOfMemory

type_synonym uint32 = "32 word"

record 'f Mandelbrot =
  ImageWidth :: int
  ImageHeight :: int
  center :: "'f complex128"
  zoomLevel :: 'f
  maxIterations :: int
  buffer :: "uint32 list list"
  minX :: 'f
  minY :: 'f
  maxX :: 'f
  maxY :: 'f
  histogram :: "uint32 list"
  hue :: "'f list list"

definition DefaultZoomLevel :: rat where
  "DefaultZoomLevel = 1/2"

definition DefaultMaxIterations :: int where
  "DefaultMaxIterations = 1000"

text \<open>
  \<^verbatim>\<open>make([]T, n)\<close>: a panic when \<open>n\<close> is negative, the empty slice when \<open>n\<close> is 0 (nothing
  is allocated), and for a positive \<open>n\<close> what the runtime decides: \<open>n\<close> zero values when
  it allocates. \<open>makes F t n\<close> says that \<^verbatim>\<open>make\<close> returns a slice of \<open>n\<close> elements of
  type \<open>t\<close>.
\<close>

definition make_slice :: "'f machine \<Rightarrow> elem_type \<Rightarrow> int \<Rightarrow> 'a \<Rightarrow> error + 'a list" where
  "make_slice F t n zero =
     (if n < 0 then Inl PanicMakeSliceLen
      else if n = 0 then Inr []
      else (case runtime_make F t n of
              Allocated \<Rightarrow> Inr (replicate (nat n) zero)
            | LenOutOfRange \<Rightarrow> Inl PanicMakeSliceLen
            | OutOfMemory \<Rightarrow> Inl FatalOutOfMemory))"

definition makes :: "'f machine \<Rightarrow> elem_type \<Rightarrow> int \<Rightarrow> bool" where
  "makes F t n = (n = 0 \<or> (0 < n \<and> runtime_make F t n = Allocated))"

definition SetCenter :: "'f Mandelbrot \<Rightarrow> 'f complex128 \<Rightarrow> 'f Mandelbrot" where
  "SetCenter m c = m\<lparr>center := c\<rparr>"

definition SetZoom :: "'f machine \<Rightarrow> 'f Mandelbrot \<Rightarrow> 'f \<Rightarrow> 'f Mandelbrot" where
  "SetZoom F m z =
     (let m1 = m\<lparr>zoomLevel := z\<rparr>;
          offset = fdiv F (fconst F 1) (zoomLevel m1);
          stretch = fdiv F (f_of_int F (ImageHeight m1)) (f_of_int F (ImageWidth m1));
          m2 = m1\<lparr>minX := fsub F (fst (center m1)) offset\<rparr>;
          m3 = m2\<lparr>maxX := fadd F (fst (center m2)) offset\<rparr>;
          m4 = m3\<lparr>minY := fsub F (snd (center m3)) (fmul F offset stretch)\<rparr>
      in m4\<lparr>maxY := fadd F (snd (center m4)) (fmul F offset stretch)\<rparr>)"

definition ScaleZoom :: "'f machine \<Rightarrow> 'f Mandelbrot \<Rightarrow> 'f \<Rightarrow> 'f Mandelbrot" where
  "ScaleZoom F m scale = SetZoom F m (fmul F (zoomLevel m) scale)"

definition GetBounds :: "'f Mandelbrot \<Rightarrow> 'f \<times> 'f \<times> 'f \<times> 'f" where
  "GetBounds m = (minX m, minY m, maxX m, maxY m)"

definition GetBuffer :: "'f Mandelbrot \<Rightarrow> uint32 list list" where
  "GetBuffer m = buffer m"

definition GetZoom :: "'f Mandelbrot \<Rightarrow> 'f" where
  "GetZoom m = zoomLevel m"

definition GetMaxIterations :: "'f Mandelbrot \<Rightarrow> int" where
  "GetMaxIterations m = maxIterations m"

definition SetMaxIterations :: "'f machine \<Rightarrow> 'f Mandelbrot \<Rightarrow> int \<Rightarrow> error + 'f Mandelbrot" where
  "SetMaxIterations F m i =
     (let m1 = m\<lparr>maxIterations := i\<rparr> in
      case make_slice F T_uint32 (maxIterations m1) 0 of
        Inl e \<Rightarrow> Inl e
      | Inr h \<Rightarrow> Inr (m1\<lparr>histogram := h\<rparr>))"

definition GetHistogram :: "'f Mandelbrot \<Rightarrow> uint32 list" where
  "GetHistogram m = histogram m"

definition GetHue :: "'f Mandelbrot \<Rightarrow> 'f list list" where
  "GetHue m = hue m"

text \<open>
  The loop that allocates the columns of a grid, \<^verbatim>\<open>g[i] = make([]T, height)\<close> for
  \<open>i\<close> from 0 below \<open>width\<close>. \<^verbatim>\<open>Create\<close> runs it for the buffer and \<^verbatim>\<open>Generate\<close> for
  the hue map.
\<close>

function alloc_columns ::
  "'f machine \<Rightarrow> elem_type \<Rightarrow> int \<Rightarrow> int \<Rightarrow> 'a \<Rightarrow> int \<Rightarrow> 'a list list \<Rightarrow> error + 'a list list" where
  "alloc_columns F t width height zero i g =
     (if i < width then
        (case make_slice F t height zero of
           Inl e \<Rightarrow> Inl e
         | Inr col \<Rightarrow>
             if 0 \<le> i \<and> i < int (length g)
             then alloc_columns F t width height zero (i + 1) (g[nat i := col])
             else Inl PanicIndexOutOfRange)
      else Inr g)"
  by pat_completeness auto
termination
  by (relation "measure (\<lambda>(F, t, width, height, zero, i, g). nat (width - i))") auto

declare alloc_columns.simps [simp del]

text \<open>The struct literal of \<^verbatim>\<open>Create\<close>: every field not named has its zero value.\<close>

definition new_Mandelbrot :: "'f machine \<Rightarrow> int \<Rightarrow> int \<Rightarrow> 'f complex128 \<Rightarrow> 'f Mandelbrot" where
  "new_Mandelbrot F width height c =
     \<lparr>ImageWidth = width, ImageHeight = height, center = c, zoomLevel = fconst F 0,
      maxIterations = 0, buffer = [], minX = fconst F 0, minY = fconst F 0,
      maxX = fconst F 0, maxY = fconst F 0, histogram = [], hue = []\<rparr>"

definition Create :: "'f machine \<Rightarrow> int \<Rightarrow> int \<Rightarrow> 'f complex128 \<Rightarrow> error + 'f Mandelbrot" where
  "Create F width height c =
     (case SetMaxIterations F (new_Mandelbrot F width height c) DefaultMaxIterations of
        Inl e \<Rightarrow> Inl e
      | Inr m1 \<Rightarrow>
          let m2 = SetZoom F m1 (fconst F DefaultZoomLevel) in
          (case make_slice F T_slice_uint32 width [] of
             Inl e \<Rightarrow> Inl e
           | Inr cols \<Rightarrow>
               (case alloc_columns F T_uint32 width height 0 0 cols of
                  Inl e \<Rightarrow> Inl e
                | Inr buf \<Rightarrow> Inr (m2\<lparr>buffer := buf\<rparr>))))"

section \<open>Generate\<close>

text \<open>The complex number of pixel \<open>(x, y)\<close>, as the two loops of \<^verbatim>\<open>Generate\<close> compute it.\<close>

definition pixel_point :: "'f machine \<Rightarrow> 'f Mandelbrot \<Rightarrow> int \<Rightarrow> int \<Rightarrow> 'f complex128" where
  "pixel_point F m x y =
     (let a = MapIntToFloat F x 0 (ImageWidth m) (minX m) (maxX m);
          b = MapIntToFloat F y 0 (ImageHeight m) (minY m) (maxY m)
      in (a, b))"

text \<open>
  One goroutine is started for each pixel, in the order of the loops (\<open>x\<close> outside,
  \<open>y\<close> inside); it holds its own \<open>x\<close>, \<open>y\<close> and \<open>p\<close>.
\<close>

definition pixel_tasks :: "'f machine \<Rightarrow> 'f Mandelbrot \<Rightarrow> (int \<times> int \<times> 'f complex128) list" where
  "pixel_tasks F m =
     concat (map (\<lambda>x. map (\<lambda>y. (x, y, pixel_point F m x y)) [0..ImageHeight m - 1])
                 [0..ImageWidth m - 1])"

text \<open>
  Where a goroutine stands. The statement \<^verbatim>\<open>m.histogram[iterations]++\<close> is a read of the
  slot followed by a write of the value read plus one; nothing in the program makes the
  two one step, so another goroutine can run between them.
\<close>

datatype goroutine =
    Spawned
  | Loading int            \<comment> \<open>\<open>iterations\<close> computed and stored, slot not yet read\<close>
  | Storing int uint32     \<comment> \<open>slot read, not yet written back\<close>
  | Finished
  | Panicked

type_synonym pool = "goroutine list \<times> uint32 list list \<times> uint32 list"

definition goroutine_step ::
  "'f machine \<Rightarrow> int \<Rightarrow> (int \<times> int \<times> 'f complex128) list \<Rightarrow> pool \<Rightarrow> nat \<Rightarrow> pool" where
  "goroutine_step F maxIter tasks st k =
     (case st of (gs, buf, hist) \<Rightarrow>
        if k < length gs \<and> k < length tasks then
          (case gs ! k of
             Spawned \<Rightarrow>
               (case tasks ! k of (x, y, p) \<Rightarrow>
                  let iterations = pointInSet F p maxIter in
                  if 0 \<le> x \<and> x < int (length buf) \<and> 0 \<le> y \<and> y < int (length (buf ! nat x))
                  then (gs[k := (if iterations \<noteq> maxIter then Loading iterations else Finished)],
                        buf[nat x := (buf ! nat x)[nat y := word_of_int iterations]], hist)
                  else (gs[k := Panicked], buf, hist))
           | Loading iterations \<Rightarrow>
               if 0 \<le> iterations \<and> iterations < int (length hist)
               then (gs[k := Storing iterations (hist ! nat iterations)], buf, hist)
               else (gs[k := Panicked], buf, hist)
           | Storing iterations old \<Rightarrow>
               (gs[k := Finished], buf, hist[nat iterations := old + 1])
           | Finished \<Rightarrow> st
           | Panicked \<Rightarrow> st)
        else st)"

text \<open>
  A schedule is the list of the goroutines in the order in which they take their steps.
  \<^verbatim>\<open>wg.Wait()\<close> returns once every goroutine has finished: after the schedule, the
  goroutines still running are run to their end, one after the other. The empty
  schedule runs the goroutines one after the other from the start.
\<close>

definition run_schedule ::
  "'f machine \<Rightarrow> int \<Rightarrow> (int \<times> int \<times> 'f complex128) list \<Rightarrow> nat list \<Rightarrow> pool \<Rightarrow> pool" where
  "run_schedule F maxIter tasks sched st = foldl (goroutine_step F maxIter tasks) st sched"

definition run_to_end ::
  "'f machine \<Rightarrow> int \<Rightarrow> (int \<times> int \<times> 'f complex128) list \<Rightarrow> pool \<Rightarrow> pool" where
  "run_to_end F maxIter tasks st =
     run_schedule F maxIter tasks (concat (map (\<lambda>k. [k, k, k]) [0..<length tasks])) st"

text \<open>The loops after \<^verbatim>\<open>wg.Wait()\<close>.\<close>

function total_loop :: "uint32 list \<Rightarrow> int \<Rightarrow> int \<Rightarrow> uint32 \<Rightarrow> error + uint32" where
  "total_loop hist maxIter i tot =
     (if i < maxIter then
        (if 0 \<le> i \<and> i < int (length hist)
         then total_loop hist maxIter (i + 1) (tot + hist ! nat i)
         else Inl PanicIndexOutOfRange)
      else Inr tot)"
  by pat_completeness auto
termination
  by (relation "measure (\<lambda>(hist, maxIter, i, tot). nat (maxIter - i))") auto

declare total_loop.simps [simp del]

function hue_i_loop ::
  "'f machine \<Rightarrow> uint32 list \<Rightarrow> uint32 \<Rightarrow> int \<Rightarrow> int \<Rightarrow> 'f \<Rightarrow> error + 'f" where
  "hue_i_loop F hist tot v i h =
     (if i < v then
        (if 0 \<le> i \<and> i < int (length hist)
         then hue_i_loop F hist tot v (i + 1)
                (fadd F h (fdiv F (f_of_int F (uint (hist ! nat i))) (f_of_int F (uint tot))))
         else Inl PanicIndexOutOfRange)
      else Inr h)"
  by pat_completeness auto
termination
  by (relation "measure (\<lambda>(F, hist, tot, v, i, h). nat (v - i))") auto

declare hue_i_loop.simps [simp del]

definition in_grid :: "'a list list \<Rightarrow> int \<Rightarrow> int \<Rightarrow> bool" where
  "in_grid g x y = (0 \<le> x \<and> x < int (length g) \<and> 0 \<le> y \<and> y < int (length (g ! nat x)))"

function hue_y_loop ::
  "'f machine \<Rightarrow> 'f Mandelbrot \<Rightarrow> uint32 \<Rightarrow> int \<Rightarrow> int \<Rightarrow> 'f list list \<Rightarrow> error + 'f list list" where
  "hue_y_loop F m tot x y hu =
     (if y < ImageHeight m then
        (if in_grid (buffer m) x y then
           (let v = buffer m ! nat x ! nat y in
            if 0 < uint v \<and> \<not> in_grid hu x y then Inl PanicIndexOutOfRange
            else
              (case hue_i_loop F (histogram m) tot (uint v) 0 (hu ! nat x ! nat y) of
                 Inl e \<Rightarrow> Inl e
               | Inr h \<Rightarrow>
                   hue_y_loop F m tot x (y + 1)
                     (if 0 < uint v then hu[nat x := (hu ! nat x)[nat y := h]] else hu)))
         else Inl PanicIndexOutOfRange)
      else Inr hu)"
  by pat_completeness auto
termination
  by (relation "measure (\<lambda>(F, m, tot, x, y, hu). nat (ImageHeight m - y))") auto

declare hue_y_loop.simps [simp del]

function hue_x_loop ::
  "'f machine \<Rightarrow> 'f Mandelbrot \<Rightarrow> uint32 \<Rightarrow> int \<Rightarrow> 'f list list \<Rightarrow> error + 'f list list" where
  "hue_x_loop F m tot x hu =
     (if x < ImageWidth m then
        (case hue_y_loop F m tot x 0 hu of
           Inl e \<Rightarrow> Inl e
         | Inr hu' \<Rightarrow> hue_x_loop F m tot (x + 1) hu')
      else Inr hu)"
  by pat_completeness auto
termination
  by (relation "measure (\<lambda>(F, m, tot, x, hu). nat (ImageWidth m - x))") auto

declare hue_x_loop.simps [simp del]

text \<open>Lines 81 to 97: the total of the histogram, then the hue of every pixel.\<close>

definition Generate_hue :: "'f machine \<Rightarrow> 'f Mandelbrot \<Rightarrow> error + 'f Mandelbrot" where
  "Generate_hue F m =
     (case total_loop (histogram m) (maxIterations m) 0 0 of
        Inl e \<Rightarrow> Inl e
      | Inr tot \<Rightarrow>
          (case hue_x_loop F m tot 0 (hue m) of
             Inl e \<Rightarrow> Inl e
           | Inr hu \<Rightarrow> Inr (m\<lparr>hue := hu\<rparr>)))"

text \<open>Lines 43 to 48: the histogram and the hue map are allocated anew.\<close>

definition Generate_alloc :: "'f machine \<Rightarrow> 'f Mandelbrot \<Rightarrow> error + 'f Mandelbrot" where
  "Generate_alloc F m =
     (case make_slice F T_uint32 (maxIterations m) 0 of
        Inl e \<Rightarrow> Inl e
      | Inr h \<Rightarrow>
          (case make_slice F T_slice_float64 (ImageWidth m) [] of
             Inl e \<Rightarrow> Inl e
           | Inr cols \<Rightarrow>
               (case alloc_columns F T_float64 (ImageWidth m) (ImageHeight m) (fconst F 0) 0 cols of
                  Inl e \<Rightarrow> Inl e
                | Inr hu \<Rightarrow> Inr (m\<lparr>histogram := h, hue := hu\<rparr>))))"

text \<open>Lines 50 to 79: the goroutines, run under a schedule, up to the barrier.\<close>

definition Generate_pixels :: "'f machine \<Rightarrow> nat list \<Rightarrow> 'f Mandelbrot \<Rightarrow> error + 'f Mandelbrot" where
  "Generate_pixels F sched m =
     (let tasks = pixel_tasks F m;
          st = run_to_end F (maxIterations m) tasks
                 (run_schedule F (maxIterations m) tasks sched
                    (replicate (length tasks) Spawned, buffer m, histogram m))
      in case st of (gs, buf, hist) \<Rightarrow>
           if Panicked \<in> set gs then Inl PanicIndexOutOfRange
           else Inr (m\<lparr>buffer := buf, histogram := hist\<rparr>))"

definition Generate :: "'f machine \<Rightarrow> nat list \<Rightarrow> 'f Mandelbrot \<Rightarrow> error + 'f Mandelbrot" where
  "Generate F sched m =
     (case Generate_alloc F m of
        Inl e \<Rightarrow> Inl e
      | Inr m1 \<Rightarrow>
          (case Generate_pixels F sched m1 of
             Inl e \<Rightarrow> Inl e
           | Inr m2 \<Rightarrow> Generate_hue F m2))"

section \<open>An interpretation of the arithmetic\<close>

text \<open>
  One interpretation of the operations, used where a statement needs the value of a
  computation: the special values of IEEE 754 (the two infinities and NaN) and exact
  arithmetic on the finite values. It has no rounding, no overflow and no negative zero.
  For the four operations, the square root, the comparisons and the conversions it gives
  the result of \<^verbatim>\<open>float64\<close> arithmetic wherever the exact result is a double, which is the
  case at the inputs evaluated below (small dyadic numbers). \<^verbatim>\<open>cmplx.Abs\<close> is
  interpreted as the exact modulus, and \<^verbatim>\<open>cmplx.Pow(z, 2)\<close> as the exact square; Go
  computes the square in polar form, exactly at \<open>z = 0\<close> (where it returns 0) and
  approximately elsewhere. The statements below about \<^verbatim>\<open>Create\<close>, the setters and
  \<^verbatim>\<open>Generate\<close> evaluate the square at 0 only. The orbit of \<open>-2\<close> that illustrates the
  escape-time theorem is the exact orbit \<open>0, -2, 2, 2\<close>: it is an orbit of this
  interpretation, not of the Go function, whose square of \<open>-2\<close> has a small imaginary
  part. A statement below that ranges over all the values of this interpretation is a
  statement about exact arithmetic and is marked as such; what holds of the program
  whatever the rounding is stated for every \<open>F\<close>.
\<close>

datatype ideal64 = Fin real | PInf | NInf | NaN

fun i_neg :: "ideal64 \<Rightarrow> ideal64" where
  "i_neg (Fin a) = Fin (- a)"
| "i_neg PInf = NInf"
| "i_neg NInf = PInf"
| "i_neg NaN = NaN"

fun i_negative :: "ideal64 \<Rightarrow> bool" where
  "i_negative (Fin a) = (a < 0)"
| "i_negative NInf = True"
| "i_negative PInf = False"
| "i_negative NaN = False"

fun i_add :: "ideal64 \<Rightarrow> ideal64 \<Rightarrow> ideal64" where
  "i_add (Fin a) (Fin b) = Fin (a + b)"
| "i_add NaN y = NaN"
| "i_add x NaN = NaN"
| "i_add PInf NInf = NaN"
| "i_add NInf PInf = NaN"
| "i_add PInf y = PInf"
| "i_add NInf y = NInf"
| "i_add (Fin a) y = y"

definition i_sub :: "ideal64 \<Rightarrow> ideal64 \<Rightarrow> ideal64" where
  "i_sub x y = i_add x (i_neg y)"

fun i_mul :: "ideal64 \<Rightarrow> ideal64 \<Rightarrow> ideal64" where
  "i_mul (Fin a) (Fin b) = Fin (a * b)"
| "i_mul NaN y = NaN"
| "i_mul x NaN = NaN"
| "i_mul x y =
     (if x = Fin 0 \<or> y = Fin 0 then NaN
      else if i_negative x = i_negative y then PInf else NInf)"

fun i_div :: "ideal64 \<Rightarrow> ideal64 \<Rightarrow> ideal64" where
  "i_div (Fin a) (Fin b) =
     (if b = 0 then (if a = 0 then NaN else if 0 < a then PInf else NInf) else Fin (a / b))"
| "i_div NaN y = NaN"
| "i_div x NaN = NaN"
| "i_div (Fin a) y = Fin 0"
| "i_div x (Fin b) = (if i_negative x = (b < 0) then PInf else NInf)"
| "i_div x y = NaN"

fun i_eq :: "ideal64 \<Rightarrow> ideal64 \<Rightarrow> bool" where
  "i_eq (Fin a) (Fin b) = (a = b)"
| "i_eq PInf PInf = True"
| "i_eq NInf NInf = True"
| "i_eq x y = False"

fun i_le :: "ideal64 \<Rightarrow> ideal64 \<Rightarrow> bool" where
  "i_le (Fin a) (Fin b) = (a \<le> b)"
| "i_le NaN y = False"
| "i_le x NaN = False"
| "i_le NInf y = True"
| "i_le x PInf = True"
| "i_le x y = False"

fun i_gt :: "ideal64 \<Rightarrow> ideal64 \<Rightarrow> bool" where
  "i_gt (Fin a) (Fin b) = (a > b)"
| "i_gt NaN y = False"
| "i_gt x NaN = False"
| "i_gt PInf PInf = False"
| "i_gt PInf y = True"
| "i_gt NInf y = False"
| "i_gt (Fin a) y = (y = NInf)"

fun i_sqrt :: "ideal64 \<Rightarrow> ideal64" where
  "i_sqrt (Fin a) = (if a < 0 then NaN else Fin (sqrt a))"
| "i_sqrt PInf = PInf"
| "i_sqrt NInf = NaN"
| "i_sqrt NaN = NaN"

text \<open>
  The program raises to the power 2 only, \<^verbatim>\<open>math.Pow(x, 2)\<close> and \<^verbatim>\<open>cmplx.Pow(z, 2)\<close>:
  the square is interpreted, any other exponent is left as NaN.
\<close>

definition i_pow :: "ideal64 \<Rightarrow> ideal64 \<Rightarrow> ideal64" where
  "i_pow x y = (if y = Fin 2 then i_mul x x else NaN)"

fun i_csquare :: "ideal64 \<times> ideal64 \<Rightarrow> ideal64 \<times> ideal64" where
  "i_csquare (Fin a, Fin b) = (Fin (a * a - b * b), Fin (2 * a * b))"
| "i_csquare z = (NaN, NaN)"

definition i_cpow :: "ideal64 \<times> ideal64 \<Rightarrow> ideal64 \<times> ideal64 \<Rightarrow> ideal64 \<times> ideal64" where
  "i_cpow z w = (if w = (Fin 2, Fin 0) then i_csquare z else (NaN, NaN))"

fun i_cabs :: "ideal64 \<times> ideal64 \<Rightarrow> ideal64" where
  "i_cabs (Fin a, Fin b) = Fin (sqrt (a * a + b * b))"
| "i_cabs (x, y) = (if x = PInf \<or> x = NInf \<or> y = PInf \<or> y = NInf then PInf else NaN)"

text \<open>
  Modelled from the spec: \<^verbatim>\<open>MapIntToFloat\<close>, which \<^verbatim>\<open>Generate\<close> calls and which is not in
  \<^verbatim>\<open>mandelbrot.go\<close>. The specification says of it that it returns \<open>outLow\<close> at
  \<open>x = inLow\<close>, \<open>outHigh\<close> at \<open>x = inHigh\<close>, and is affine in between.
\<close>

definition i_map :: "int \<Rightarrow> int \<Rightarrow> int \<Rightarrow> ideal64 \<Rightarrow> ideal64 \<Rightarrow> ideal64" where
  "i_map x inLow inHigh outLow outHigh =
     i_add outLow
       (i_mul (i_div (Fin (of_int (x - inLow))) (Fin (of_int (inHigh - inLow))))
              (i_sub outHigh outLow))"

text \<open>
  The runtime of the interpretation never runs out of memory and has the limit of a
  64-bit platform on the length of a slice: at most \<open>2\<^sup>4\<^sup>8\<close> bytes, at 4 bytes for a
  \<^verbatim>\<open>uint32\<close>, 8 for a \<^verbatim>\<open>float64\<close> and 24 for a slice.
\<close>

fun elem_size :: "elem_type \<Rightarrow> int" where
  "elem_size T_uint32 = 4"
| "elem_size T_float64 = 8"
| "elem_size T_slice_uint32 = 24"
| "elem_size T_slice_float64 = 24"

definition i_make :: "elem_type \<Rightarrow> int \<Rightarrow> allocation" where
  "i_make t n = (if elem_size t * n \<le> 2 ^ 48 then Allocated else LenOutOfRange)"

definition ideal :: "ideal64 machine" where
  "ideal =
     \<lparr>fconst = (\<lambda>q. Fin (of_rat q)), f_of_int = (\<lambda>n. Fin (of_int n)),
      fadd = i_add, fsub = i_sub, fmul = i_mul, fdiv = i_div,
      feq = i_eq, fle = i_le, fgt = i_gt,
      math_Sqrt = i_sqrt, math_Pow = i_pow, cmplx_Pow = i_cpow, cmplx_Abs = i_cabs,
      MapIntToFloat = i_map, runtime_make = i_make\<rparr>"

section \<open>An interpretation with rounding\<close>

text \<open>
  A second interpretation, on the same values, in which the result of an operation is
  rounded as IEEE 754 rounds a binary64: to the nearest number of 53 significant bits,
  to the even one of two that are equally near, with the subnormal numbers below
  \<open>2\<^sup>-\<^sup>1\<^sup>0\<^sup>2\<^sup>2\<close> and an infinity from \<open>2\<^sup>1\<^sup>0\<^sup>2\<^sup>4\<close> on. It still has no negative zero.
  \<open>expo x\<close> is the exponent of \<open>x\<close>, the \<open>e\<close> with \<open>2\<^sup>e \<le> |x| < 2\<^sup>e\<^sup>+\<^sup>1\<close>.
\<close>

definition round_half_even :: "real \<Rightarrow> int" where
  "round_half_even r =
     (let f = \<lfloor>r\<rfloor> in
      if r - of_int f < 1/2 then f
      else if 1/2 < r - of_int f then f + 1
      else if even f then f else f + 1)"

definition expo :: "real \<Rightarrow> int" where
  "expo x = \<lfloor>log 2 \<bar>x\<bar>\<rfloor>"

definition round64 :: "real \<Rightarrow> ideal64" where
  "round64 x =
     (if x = 0 then Fin 0
      else
        (let u = 2 powi (max (expo x) (- 1022) - 52);
             y = u * of_int (round_half_even (x / u))
         in if 2 ^ 1024 \<le> \<bar>y\<bar> then (if 0 < x then PInf else NInf) else Fin y))"

fun b_round :: "ideal64 \<Rightarrow> ideal64" where
  "b_round (Fin r) = round64 r"
| "b_round PInf = PInf"
| "b_round NInf = NInf"
| "b_round NaN = NaN"

definition b_add :: "ideal64 \<Rightarrow> ideal64 \<Rightarrow> ideal64" where
  "b_add x y = b_round (i_add x y)"

definition b_sub :: "ideal64 \<Rightarrow> ideal64 \<Rightarrow> ideal64" where
  "b_sub x y = b_round (i_sub x y)"

definition b_mul :: "ideal64 \<Rightarrow> ideal64 \<Rightarrow> ideal64" where
  "b_mul x y = b_round (i_mul x y)"

definition b_div :: "ideal64 \<Rightarrow> ideal64 \<Rightarrow> ideal64" where
  "b_div x y = b_round (i_div x y)"

definition b_sqrt :: "ideal64 \<Rightarrow> ideal64" where
  "b_sqrt x = b_round (i_sqrt x)"

text \<open>
  \<^verbatim>\<open>math.Pow(x, 2)\<close> is the rounded product of \<open>x\<close> with itself. \<^verbatim>\<open>cmplx.Pow(z, 2)\<close> is 0
  at \<open>z = 0\<close>; away from 0 Go computes it in polar form, through \<^verbatim>\<open>atan2\<close>, \<^verbatim>\<open>sin\<close>
  and \<^verbatim>\<open>cos\<close>, which are not interpreted: it is left as NaN, as is every other exponent.
\<close>

definition b_pow :: "ideal64 \<Rightarrow> ideal64 \<Rightarrow> ideal64" where
  "b_pow x y = (if y = Fin 2 then b_mul x x else NaN)"

definition b_cpow :: "ideal64 \<times> ideal64 \<Rightarrow> ideal64 \<times> ideal64 \<Rightarrow> ideal64 \<times> ideal64" where
  "b_cpow z w = (if z = (Fin 0, Fin 0) \<and> w = (Fin 2, Fin 0) then (Fin 0, Fin 0) else (NaN, NaN))"

text \<open>
  \<^verbatim>\<open>cmplx.Abs(z)\<close> is \<^verbatim>\<open>math.Hypot(real(z), imag(z))\<close>, which Go computes as
  \<^verbatim>\<open>p * Sqrt(1 + q*q)\<close> with \<open>p\<close> the larger of the two absolute values, \<open>q\<close> the smaller
  one divided by \<open>p\<close>, and 0 when \<open>p\<close> is 0.
\<close>

fun b_cabs :: "ideal64 \<times> ideal64 \<Rightarrow> ideal64" where
  "b_cabs (Fin a, Fin b) =
     (let p = max \<bar>a\<bar> \<bar>b\<bar>; q = min \<bar>a\<bar> \<bar>b\<bar> in
      if p = 0 then Fin 0
      else
        (let q' = b_div (Fin q) (Fin p) in
         b_mul (Fin p) (b_sqrt (b_add (Fin 1) (b_mul q' q')))))"
| "b_cabs (x, y) = (if x = PInf \<or> x = NInf \<or> y = PInf \<or> y = NInf then PInf else NaN)"

text \<open>
  Modelled from the spec: \<^verbatim>\<open>MapIntToFloat\<close>, as in the first interpretation, each
  operation rounded.
\<close>

definition b_map :: "int \<Rightarrow> int \<Rightarrow> int \<Rightarrow> ideal64 \<Rightarrow> ideal64 \<Rightarrow> ideal64" where
  "b_map x inLow inHigh outLow outHigh =
     b_add outLow
       (b_mul (b_div (round64 (of_int (x - inLow))) (round64 (of_int (inHigh - inLow))))
              (b_sub outHigh outLow))"

definition binary64 :: "ideal64 machine" where
  "binary64 =
     \<lparr>fconst = (\<lambda>q. round64 (of_rat q)), f_of_int = (\<lambda>n. round64 (of_int n)),
      fadd = b_add, fsub = b_sub, fmul = b_mul, fdiv = b_div,
      feq = i_eq, fle = i_le, fgt = i_gt,
      math_Sqrt = b_sqrt, math_Pow = b_pow, cmplx_Pow = b_cpow, cmplx_Abs = b_cabs,
      MapIntToFloat = b_map, runtime_make = i_make\<rparr>"

section \<open>The words of the specification\<close>

text \<open>
  Bounds consistent with the stored center, zoom and aspect ratio: \<open>offset = 1/z\<close>,
  \<open>stretch = H/W\<close>, \<open>minX = cx - offset\<close>, \<open>maxX = cx + offset\<close>,
  \<open>minY = cy - offset * stretch\<close>, \<open>maxY = cy + offset * stretch\<close>.
\<close>

definition spec_bounds :: "'f machine \<Rightarrow> 'f complex128 \<Rightarrow> 'f \<Rightarrow> int \<Rightarrow> int \<Rightarrow> 'f \<times> 'f \<times> 'f \<times> 'f" where
  "spec_bounds F c z W H =
     (fsub F (fst c) (fdiv F (fconst F 1) z),
      fsub F (snd c) (fmul F (fdiv F (fconst F 1) z) (fdiv F (f_of_int F H) (f_of_int F W))),
      fadd F (fst c) (fdiv F (fconst F 1) z),
      fadd F (snd c) (fmul F (fdiv F (fconst F 1) z) (fdiv F (f_of_int F H) (f_of_int F W))))"

definition bounds_consistent :: "'f machine \<Rightarrow> 'f Mandelbrot \<Rightarrow> bool" where
  "bounds_consistent F m =
     (GetBounds m = spec_bounds F (center m) (zoomLevel m) (ImageWidth m) (ImageHeight m))"

text \<open>The orbit \<open>z\<^sub>0 = 0\<close>, \<open>z\<^sub>n\<^sub>+\<^sub>1 = z\<^sub>n\<^sup>2 + c\<close>, and the two events the evaluator looks for
  at step \<open>n\<close>, when it has computed \<open>z\<^sub>n\<^sub>+\<^sub>1\<close>: the new iterate equals one of the two
  before it (at step 0 there is only \<open>z\<^sub>0\<close> before it), or its modulus exceeds 2.\<close>

primrec orbit :: "'f machine \<Rightarrow> 'f complex128 \<Rightarrow> nat \<Rightarrow> 'f complex128" where
  "orbit F c 0 = cconst F 0"
| "orbit F c (Suc n) = cadd F (cmplx_Pow F (orbit F c n) (cconst F 2)) c"

definition repeats_at :: "'f machine \<Rightarrow> 'f complex128 \<Rightarrow> nat \<Rightarrow> bool" where
  "repeats_at F c n =
     (ceq F (orbit F c (Suc n)) (orbit F c n) \<or> ceq F (orbit F c (Suc n)) (orbit F c (n - 1)))"

definition escapes_at :: "'f machine \<Rightarrow> 'f complex128 \<Rightarrow> nat \<Rightarrow> bool" where
  "escapes_at F c n = fgt F (cmplx_Abs F (orbit F c (Suc n))) (fconst F 2)"

definition runs_on :: "'f machine \<Rightarrow> 'f complex128 \<Rightarrow> nat \<Rightarrow> bool" where
  "runs_on F c n = (\<forall>j<n. \<not> repeats_at F c j \<and> \<not> escapes_at F c j)"

text \<open>
  The colouring in the words of the specification: \<open>total\<close> is the sum of the slots
  \<open>histogram[0..maxIterations)\<close>, in \<^verbatim>\<open>uint32\<close> as the program adds them, and the hue of a
  pixel of count \<open>v\<close> is the sum, from 0.0 and in the order of the indices, of
  \<open>histogram[i] / total\<close> over \<open>i < v\<close>.
\<close>

definition spec_total :: "uint32 list \<Rightarrow> int \<Rightarrow> uint32" where
  "spec_total hist maxIter = sum_list (take (nat maxIter) hist)"

definition hue_term :: "'f machine \<Rightarrow> uint32 list \<Rightarrow> uint32 \<Rightarrow> nat \<Rightarrow> 'f" where
  "hue_term F hist tot i = fdiv F (f_of_int F (uint (hist ! i))) (f_of_int F (uint tot))"

definition hue_from :: "'f machine \<Rightarrow> uint32 list \<Rightarrow> uint32 \<Rightarrow> uint32 \<Rightarrow> 'f \<Rightarrow> 'f" where
  "hue_from F hist tot v h = foldl (\<lambda>h i. fadd F h (hue_term F hist tot i)) h [0..<unat v]"

definition spec_hue :: "'f machine \<Rightarrow> uint32 list \<Rightarrow> uint32 \<Rightarrow> uint32 \<Rightarrow> 'f" where
  "spec_hue F hist tot v = hue_from F hist tot v (fconst F 0)"

text \<open>A grid of \<open>W\<close> columns of \<open>H\<close> cells each.\<close>

definition is_grid :: "'a list list \<Rightarrow> int \<Rightarrow> int \<Rightarrow> bool" where
  "is_grid g W H = (length g = nat W \<and> (\<forall>x < nat W. length (g ! x) = nat H))"

text \<open>A hue in the interval from 0 to 1, under the comparisons of the machine.\<close>

definition in_unit_interval :: "'f machine \<Rightarrow> 'f \<Rightarrow> bool" where
  "in_unit_interval F h = (fle F (fconst F 0) h \<and> fle F h (fconst F 1))"

text \<open>The sum of the slots of the histogram, and the number of pixels whose stored
  iteration count is not \<open>maxIterations\<close>.\<close>

definition histogram_sum :: "'f Mandelbrot \<Rightarrow> nat" where
  "histogram_sum m = sum_list (map unat (histogram m))"

definition escaped_pixels :: "'f Mandelbrot \<Rightarrow> nat" where
  "escaped_pixels m = length (filter (\<lambda>v. uint v \<noteq> maxIterations m) (concat (buffer m)))"

section \<open>Well-formed views and the invariant of the goroutines\<close>

text \<open>
  A view as \<^verbatim>\<open>Create\<close> and the setters leave it: no negative size or bound, and a buffer
  of \<open>ImageWidth\<close> columns of \<open>ImageHeight\<close> cells.
\<close>

definition wf_view :: "'f Mandelbrot \<Rightarrow> bool" where
  "wf_view m =
     (0 \<le> maxIterations m \<and> 0 \<le> ImageWidth m \<and> 0 \<le> ImageHeight m \<and>
      is_grid (buffer m) (ImageWidth m) (ImageHeight m))"

text \<open>
  The three allocations of \<^verbatim>\<open>Generate\<close> succeed: the histogram, the columns of the hue
  map and, when there is a column, each column.
\<close>

definition Generate_allocates :: "'f machine \<Rightarrow> 'f Mandelbrot \<Rightarrow> bool" where
  "Generate_allocates F m =
     (makes F T_uint32 (maxIterations m) \<and> makes F T_slice_float64 (ImageWidth m) \<and>
      (ImageWidth m = 0 \<or> makes F T_float64 (ImageHeight m)))"

text \<open>A goroutine of \<^verbatim>\<open>Generate\<close> holds a pixel of the image and the point of that pixel.\<close>

definition task_ok :: "'f machine \<Rightarrow> 'f Mandelbrot \<Rightarrow> int \<times> int \<times> 'f complex128 \<Rightarrow> bool" where
  "task_ok F m t =
     (case t of (x, y, p) \<Rightarrow>
        0 \<le> x \<and> x < ImageWidth m \<and> 0 \<le> y \<and> y < ImageHeight m \<and> p = pixel_point F m x y)"

text \<open>
  What holds of the goroutines, the buffer and the histogram at every moment between
  the start of the goroutines and the barrier: no goroutine has panicked, a goroutine
  past its first step has stored the count of its pixel, and the slot it is about to
  read or write exists.
\<close>

definition stored :: "'f machine \<Rightarrow> 'f Mandelbrot \<Rightarrow> uint32 list list \<Rightarrow> int \<times> int \<times> 'f complex128 \<Rightarrow> bool" where
  "stored F m buf t =
     (case t of (x, y, p) \<Rightarrow> buf ! nat x ! nat y = word_of_int (pointInSet F p (maxIterations m)))"

fun goroutine_ok ::
  "'f machine \<Rightarrow> 'f Mandelbrot \<Rightarrow> uint32 list list \<Rightarrow> int \<times> int \<times> 'f complex128 \<Rightarrow> goroutine \<Rightarrow> bool" where
  "goroutine_ok F m buf t Spawned = True"
| "goroutine_ok F m buf t (Loading it) = (0 \<le> it \<and> it < maxIterations m \<and> stored F m buf t)"
| "goroutine_ok F m buf t (Storing it old) = (0 \<le> it \<and> it < maxIterations m \<and> stored F m buf t)"
| "goroutine_ok F m buf t Finished = stored F m buf t"
| "goroutine_ok F m buf t Panicked = False"

definition pool_inv :: "'f machine \<Rightarrow> 'f Mandelbrot \<Rightarrow> (int \<times> int \<times> 'f complex128) list \<Rightarrow> pool \<Rightarrow> bool" where
  "pool_inv F m tasks st =
     (case st of (gs, buf, hist) \<Rightarrow>
        length gs = length tasks \<and>
        is_grid buf (ImageWidth m) (ImageHeight m) \<and>
        length hist = nat (maxIterations m) \<and>
        (\<forall>k < length tasks. goroutine_ok F m buf (tasks ! k) (gs ! k)))"

text \<open>The number of steps a goroutine still has to take, at most.\<close>

fun steps_left :: "goroutine \<Rightarrow> nat" where
  "steps_left Spawned = 3"
| "steps_left (Loading it) = 2"
| "steps_left (Storing it old) = 1"
| "steps_left Finished = 0"
| "steps_left Panicked = 0"

section \<open>The histogram the specification describes\<close>

text \<open>
  Slot \<open>i\<close> counts the pixels whose escape iteration is \<open>i\<close>, in \<^verbatim>\<open>uint32\<close>; the pixels
  that reach \<open>maxIterations\<close> are in no slot. \<open>pixel_counts\<close> are the iteration counts of
  the pixels of a view, in the order of the loops of \<^verbatim>\<open>Generate\<close>.
\<close>

definition count_hist :: "int list \<Rightarrow> int \<Rightarrow> uint32 list" where
  "count_hist its N = map (\<lambda>i. of_nat (length (filter (\<lambda>it. it = int i) its))) [0..<nat N]"

definition pixel_counts :: "'f machine \<Rightarrow> 'f Mandelbrot \<Rightarrow> int list" where
  "pixel_counts F m = map (\<lambda>t. case t of (x, y, p) \<Rightarrow> pointInSet F p (maxIterations m)) (pixel_tasks F m)"

section \<open>Evaluating the interpretation\<close>

lemma ideal_sel [simp]:
  "fconst ideal q = Fin (of_rat q)" "f_of_int ideal n = Fin (of_int n)"
  "fadd ideal = i_add" "fsub ideal = i_sub" "fmul ideal = i_mul" "fdiv ideal = i_div"
  "feq ideal = i_eq" "fle ideal = i_le" "fgt ideal = i_gt"
  "math_Sqrt ideal = i_sqrt" "math_Pow ideal = i_pow" "cmplx_Pow ideal = i_cpow"
  "cmplx_Abs ideal = i_cabs" "MapIntToFloat ideal = i_map" "runtime_make ideal = i_make"
  by (simp_all add: ideal_def)

section \<open>The evaluator follows the orbit\<close>

text \<open>
  At the head of the loop, with counter \<open>k\<close>, both \<open>cur\<close> and \<open>last0\<close> hold \<open>z\<^sub>k\<close> and
  \<open>last1\<close> holds \<open>z\<^sub>k\<^sub>-\<^sub>1\<close> (\<open>z\<^sub>0\<close> when \<open>k = 0\<close>).
\<close>

lemma loop_step:
  "int k < N \<Longrightarrow> \<not> repeats_at F c k \<Longrightarrow> \<not> escapes_at F c k \<Longrightarrow>
   pointInSet_loop F c N (int k) (orbit F c k) (orbit F c (k - 1)) (orbit F c k) =
   pointInSet_loop F c N (int (Suc k)) (orbit F c (Suc k)) (orbit F c (Suc k - 1)) (orbit F c (Suc k))"
  by (subst pointInSet_loop.simps)
     (simp add: repeats_at_def escapes_at_def Let_def mandelbrotEscapeRadius_def add.commute)

lemma loop_repeat:
  "k \<le> n \<Longrightarrow> int n < N \<Longrightarrow> (\<forall>j. k \<le> j \<and> j < n \<longrightarrow> \<not> repeats_at F c j \<and> \<not> escapes_at F c j) \<Longrightarrow>
   repeats_at F c n \<Longrightarrow>
   pointInSet_loop F c N (int k) (orbit F c k) (orbit F c (k - 1)) (orbit F c k) = N"
proof (induction "n - k" arbitrary: k)
  case 0
  then have "k = n" by simp
  with 0 show ?case
    by (subst pointInSet_loop.simps) (simp add: repeats_at_def Let_def)
next
  case (Suc d)
  then have kn: "k < n" and stop: "\<not> repeats_at F c k" "\<not> escapes_at F c k" by auto
  have "pointInSet_loop F c N (int k) (orbit F c k) (orbit F c (k - 1)) (orbit F c k) =
        pointInSet_loop F c N (int (Suc k)) (orbit F c (Suc k)) (orbit F c (Suc k - 1)) (orbit F c (Suc k))"
    using kn Suc.prems(2) stop by (intro loop_step) auto
  also have "\<dots> = N"
    using Suc.hyps(2) Suc.prems kn by (intro Suc.hyps(1)) auto
  finally show ?case .
qed


lemma loop_escape:
  "k \<le> n \<Longrightarrow> int n < N \<Longrightarrow> (\<forall>j. k \<le> j \<and> j < n \<longrightarrow> \<not> repeats_at F c j \<and> \<not> escapes_at F c j) \<Longrightarrow>
   \<not> repeats_at F c n \<Longrightarrow> escapes_at F c n \<Longrightarrow>
   pointInSet_loop F c N (int k) (orbit F c k) (orbit F c (k - 1)) (orbit F c k) = int n"
proof (induction "n - k" arbitrary: k)
  case 0
  then have "k = n" by simp
  with 0 show ?case
    by (subst pointInSet_loop.simps)
       (simp add: repeats_at_def escapes_at_def mandelbrotEscapeRadius_def Let_def)
next
  case (Suc d)
  then have kn: "k < n" and stop: "\<not> repeats_at F c k" "\<not> escapes_at F c k" by auto
  have "pointInSet_loop F c N (int k) (orbit F c k) (orbit F c (k - 1)) (orbit F c k) =
        pointInSet_loop F c N (int (Suc k)) (orbit F c (Suc k)) (orbit F c (Suc k - 1)) (orbit F c (Suc k))"
    using kn Suc.prems(2) stop by (intro loop_step) auto
  also have "\<dots> = int n"
    using Suc.hyps(2) Suc.prems kn by (intro Suc.hyps(1)) auto
  finally show ?case .
qed

lemma loop_neither:
  "(\<forall>j. k \<le> j \<and> int j < N \<longrightarrow> \<not> repeats_at F c j \<and> \<not> escapes_at F c j) \<Longrightarrow>
   pointInSet_loop F c N (int k) (orbit F c k) (orbit F c (k - 1)) (orbit F c k) = N"
proof (induction "nat (N - int k)" arbitrary: k)
  case 0
  then have "\<not> int k < N" by simp
  then show ?case by (subst pointInSet_loop.simps) simp
next
  case (Suc d)
  then have kN: "int k < N" by linarith
  with Suc.prems have stop: "\<not> repeats_at F c k" "\<not> escapes_at F c k" by auto
  have "pointInSet_loop F c N (int k) (orbit F c k) (orbit F c (k - 1)) (orbit F c k) =
        pointInSet_loop F c N (int (Suc k)) (orbit F c (Suc k)) (orbit F c (Suc k - 1)) (orbit F c (Suc k))"
    using kN stop by (rule loop_step)
  also have "\<dots> = N"
    using Suc.hyps(2) Suc.prems by (intro Suc.hyps(1)) auto
  finally show ?case .
qed

lemma loop_range:
  "i \<le> N \<Longrightarrow> i \<le> pointInSet_loop F c N i l0 l1 cu \<and> pointInSet_loop F c N i l0 l1 cu \<le> N"
proof (induction F c N i l0 l1 cu rule: pointInSet_loop.induct)
  case (1 F val maxIter i last0 last1 cur)
  show ?case
  proof (cases "i < maxIter")
    case False
    with 1 show ?thesis by (subst (1 2) pointInSet_loop.simps) simp
  next
    case True
    let ?c = "cadd F (cmplx_Pow F cur (cconst F 2)) val"
    show ?thesis
    proof (cases "ceq F ?c last0 \<or> ceq F ?c last1")
      case True
      with \<open>i < maxIter\<close> show ?thesis by (subst (1 2) pointInSet_loop.simps) (simp add: Let_def)
    next
      case nr: False
      show ?thesis
      proof (cases "fgt F (cmplx_Abs F ?c) (fconst F mandelbrotEscapeRadius)")
        case True
        with nr \<open>i < maxIter\<close> show ?thesis
          by (subst (1 2) pointInSet_loop.simps) (simp add: Let_def)
      next
        case False
        with nr \<open>i < maxIter\<close> 1(1)[OF \<open>i < maxIter\<close> refl nr False] show ?thesis
          by (subst (1 2) pointInSet_loop.simps) (simp add: Let_def)
      qed
    qed
  qed
qed

lemma pointInSet_range: "0 \<le> N \<Longrightarrow> 0 \<le> pointInSet F c N \<and> pointInSet F c N \<le> N"
  using loop_range[of 0 N F c "cconst F 0" "cconst F 0" "cconst F 0"]
  by (simp add: pointInSet_def Let_def)

lemma pointInSet_outside:
  "\<not> pointInCardioid F (fst c) (snd c) \<Longrightarrow> \<not> pointInPeriod2Bulb F (fst c) (snd c) \<Longrightarrow>
   pointInSet F c N = pointInSet_loop F c N (int 0) (orbit F c 0) (orbit F c (0 - 1)) (orbit F c 0)"
  by (simp add: pointInSet_def Let_def)

text \<open>
  C4. For a point \<open>c\<close> outside the cardioid and bulb shortcuts and \<open>maxIterations = N > 0\<close>,
  \<^verbatim>\<open>pointInSet\<close> iterates \<open>z\<^sub>0 = 0\<close>, \<open>z\<^sub>n\<^sub>+\<^sub>1 = z\<^sub>n\<^sup>2 + c\<close> with the machine's complex
  arithmetic (\<open>orbit\<close>). At the first step \<open>n < N\<close> at which something happens: if the new
  iterate equals, under the program's \<^verbatim>\<open>==\<close>, one of the two iterates before it, the result
  is \<open>N\<close>; otherwise, its modulus exceeding 2, the result is the index \<open>n\<close>. If nothing
  happens in \<open>N\<close> steps the result is \<open>N\<close>. The result lies between 0 and \<open>N\<close>.
\<close>

theorem pointInSet_escape_time:
  assumes "\<not> pointInCardioid F (fst c) (snd c)" and "\<not> pointInPeriod2Bulb F (fst c) (snd c)"
    and "0 < N"
  shows "(int n < N \<and> runs_on F c n \<and> repeats_at F c n \<longrightarrow> pointInSet F c N = N)
       \<and> (int n < N \<and> runs_on F c n \<and> \<not> repeats_at F c n \<and> escapes_at F c n \<longrightarrow> pointInSet F c N = int n)
       \<and> ((\<forall>j. int j < N \<longrightarrow> \<not> repeats_at F c j \<and> \<not> escapes_at F c j) \<longrightarrow> pointInSet F c N = N)
       \<and> 0 \<le> pointInSet F c N \<and> pointInSet F c N \<le> N"
proof (intro conjI impI)
  assume h: "int n < N \<and> runs_on F c n \<and> repeats_at F c n"
  then show "pointInSet F c N = N"
    unfolding pointInSet_outside[OF assms(1,2)] runs_on_def
    by (intro loop_repeat[where n = n]) auto
next
  assume h: "int n < N \<and> runs_on F c n \<and> \<not> repeats_at F c n \<and> escapes_at F c n"
  then show "pointInSet F c N = int n"
    unfolding pointInSet_outside[OF assms(1,2)] runs_on_def
    by (intro loop_escape[where n = n]) auto
next
  assume "\<forall>j. int j < N \<longrightarrow> \<not> repeats_at F c j \<and> \<not> escapes_at F c j"
  then show "pointInSet F c N = N"
    unfolding pointInSet_outside[OF assms(1,2)]
    by (intro loop_neither) auto
next
  show "0 \<le> pointInSet F c N" "pointInSet F c N \<le> N"
    using pointInSet_range[of N F c] assms(3) by auto
qed


lemma sqrt_vals:
  "sqrt (81 / 16) = 9 / 4" "sqrt (121 / 16) = 11 / 4" "sqrt 9 = 3" "sqrt (1 / 16) = 1 / 4"
  by (rule real_sqrt_unique; simp add: power2_eq_square)+

lemmas ideal_eval = sqrt_vals of_rat_divide of_rat_numeral_eq of_rat_1 pointInCardioid_def pointInPeriod2Bulb_def i_pow_def i_sub_def i_cpow_def
  cconst_def cadd_def ceq_def repeats_at_def escapes_at_def runs_on_def Let_def

text \<open>
  Two points outside the shortcuts, in the interpretation: \<open>-2\<close>, whose exact orbit is
  \<open>0, -2, 2, 2\<close>, and \<open>3\<close>, whose first iterate has modulus 3.
\<close>

lemma out_m2: "\<not> pointInCardioid ideal (Fin (- 2)) (Fin 0) \<and> \<not> pointInPeriod2Bulb ideal (Fin (- 2)) (Fin 0)"
  by (simp add: ideal_eval)

lemma orbit_m2:
  "orbit ideal (Fin (- 2), Fin 0) (Suc 0) = (Fin (- 2), Fin 0)"
  "orbit ideal (Fin (- 2), Fin 0) (Suc (Suc 0)) = (Fin 2, Fin 0)"
  "orbit ideal (Fin (- 2), Fin 0) (Suc (Suc (Suc 0))) = (Fin 2, Fin 0)"
  by (simp_all add: ideal_eval)

lemma runs_m2: "runs_on ideal (Fin (- 2), Fin 0) 2"
  by (simp add: ideal_eval numeral_2_eq_2 less_Suc_eq all_conj_distrib)

lemma rep_m2: "repeats_at ideal (Fin (- 2), Fin 0) 2"
  by (simp add: ideal_eval numeral_2_eq_2)

lemma out_3: "\<not> pointInCardioid ideal (Fin 3) (Fin 0) \<and> \<not> pointInPeriod2Bulb ideal (Fin 3) (Fin 0)"
  by (simp add: ideal_eval)

lemma esc_3: "\<not> repeats_at ideal (Fin 3, Fin 0) 0 \<and> escapes_at ideal (Fin 3, Fin 0) 0"
  by (simp add: ideal_eval)


theorem pointInSet_escape_time_witness:
  "\<not> pointInCardioid ideal (Fin (- 2)) (Fin 0) \<and> \<not> pointInPeriod2Bulb ideal (Fin (- 2)) (Fin 0)
   \<and> runs_on ideal (Fin (- 2), Fin 0) 2 \<and> repeats_at ideal (Fin (- 2), Fin 0) 2
   \<and> pointInSet ideal (Fin (- 2), Fin 0) 5 = 5
   \<and> pointInSet ideal (Fin (- 2), Fin 0) 2 = 2
   \<and> \<not> pointInCardioid ideal (Fin 3) (Fin 0) \<and> \<not> pointInPeriod2Bulb ideal (Fin 3) (Fin 0)
   \<and> runs_on ideal (Fin 3, Fin 0) 0 \<and> \<not> repeats_at ideal (Fin 3, Fin 0) 0
   \<and> escapes_at ideal (Fin 3, Fin 0) 0
   \<and> pointInSet ideal (Fin 3, Fin 0) 5 = 0"
proof -
  have a: "pointInSet ideal (Fin (- 2), Fin 0) 5 = 5"
    using pointInSet_escape_time [of ideal "(Fin (- 2), Fin 0)" 5 2] out_m2 runs_m2 rep_m2
    by simp
  have "\<forall>j. int j < 2 \<longrightarrow> \<not> repeats_at ideal (Fin (- 2), Fin 0) j \<and> \<not> escapes_at ideal (Fin (- 2), Fin 0) j"
    using runs_m2 by (simp add: runs_on_def)
  then have b: "pointInSet ideal (Fin (- 2), Fin 0) 2 = 2"
    using pointInSet_escape_time [of ideal "(Fin (- 2), Fin 0)" 2 0] out_m2 by simp
  have c: "pointInSet ideal (Fin 3, Fin 0) 5 = 0"
    using pointInSet_escape_time [of ideal "(Fin 3, Fin 0)" 5 0] out_3 esc_3
    by (simp add: runs_on_def)
  show ?thesis
    using a b c out_m2 runs_m2 rep_m2 out_3 esc_3 by (simp add: runs_on_def)
qed

section \<open>Bounds\<close>

text \<open>
  C7. For every center \<open>(cx, cy)\<close>, zoom \<open>z\<close>, width \<open>W\<close> and height \<open>H\<close>, \<^verbatim>\<open>SetZoom\<close> stores
  the zoom and the bounds returned by \<^verbatim>\<open>GetBounds\<close>, in the order
  \<open>minX, minY, maxX, maxY\<close>, are \<open>cx - 1/z\<close>, \<open>cy - (1/z) * (H/W)\<close>, \<open>cx + 1/z\<close>,
  \<open>cy + (1/z) * (H/W)\<close>, each operation being the machine's; this holds for every \<open>z\<close>,
  positive or not. In exact arithmetic, for \<open>z > 0\<close> and \<open>W \<noteq> 0\<close>, these are the real
  numbers of the same formulas.
\<close>

theorem SetZoom_GetBounds:
  "GetBounds (SetZoom F m z) =
     (fsub F (fst (center m)) (fdiv F (fconst F 1) z),
      fsub F (snd (center m))
        (fmul F (fdiv F (fconst F 1) z) (fdiv F (f_of_int F (ImageHeight m)) (f_of_int F (ImageWidth m)))),
      fadd F (fst (center m)) (fdiv F (fconst F 1) z),
      fadd F (snd (center m))
        (fmul F (fdiv F (fconst F 1) z) (fdiv F (f_of_int F (ImageHeight m)) (f_of_int F (ImageWidth m)))))
   \<and> GetZoom (SetZoom F m z) = z
   \<and> (0 < r \<and> ImageWidth v \<noteq> 0 \<and> center v = (Fin cx, Fin cy) \<longrightarrow>
        GetBounds (SetZoom ideal v (Fin r)) =
          (Fin (cx - 1 / r),
           Fin (cy - (1 / r) * (real_of_int (ImageHeight v) / real_of_int (ImageWidth v))),
           Fin (cx + 1 / r),
           Fin (cy + (1 / r) * (real_of_int (ImageHeight v) / real_of_int (ImageWidth v)))))"
proof (intro conjI impI)
  show "GetBounds (SetZoom F m z) =
     (fsub F (fst (center m)) (fdiv F (fconst F 1) z),
      fsub F (snd (center m))
        (fmul F (fdiv F (fconst F 1) z) (fdiv F (f_of_int F (ImageHeight m)) (f_of_int F (ImageWidth m)))),
      fadd F (fst (center m)) (fdiv F (fconst F 1) z),
      fadd F (snd (center m))
        (fmul F (fdiv F (fconst F 1) z) (fdiv F (f_of_int F (ImageHeight m)) (f_of_int F (ImageWidth m)))))"
    by (simp add: GetBounds_def SetZoom_def Let_def)
  show "GetZoom (SetZoom F m z) = z"
    by (simp add: GetZoom_def SetZoom_def Let_def)
next
  assume "0 < r \<and> ImageWidth v \<noteq> 0 \<and> center v = (Fin cx, Fin cy)"
  then show "GetBounds (SetZoom ideal v (Fin r)) =
          (Fin (cx - 1 / r),
           Fin (cy - (1 / r) * (real_of_int (ImageHeight v) / real_of_int (ImageWidth v))),
           Fin (cx + 1 / r),
           Fin (cy + (1 / r) * (real_of_int (ImageHeight v) / real_of_int (ImageWidth v))))"
    by (simp add: GetBounds_def SetZoom_def Let_def i_sub_def)
qed

theorem SetZoom_GetBounds_witness:
  "(0::real) < 2 \<and> ImageWidth (new_Mandelbrot ideal 4 2 (Fin 1, Fin 1)) \<noteq> 0
   \<and> center (new_Mandelbrot ideal 4 2 (Fin 1, Fin 1)) = (Fin 1, Fin 1)
   \<and> GetBounds (SetZoom ideal (new_Mandelbrot ideal 4 2 (Fin 1, Fin 1)) (Fin 2)) =
       (Fin (1 / 2), Fin (3 / 4), Fin (3 / 2), Fin (5 / 4))"
  using SetZoom_GetBounds [of ideal "new_Mandelbrot ideal 4 2 (Fin 1, Fin 1)" "Fin 2" 2
      "new_Mandelbrot ideal 4 2 (Fin 1, Fin 1)" 1 1]
  by (simp add: new_Mandelbrot_def i_sub_def)

lemma SetZoom_consistent: "bounds_consistent F (SetZoom F m z)"
  by (simp add: bounds_consistent_def GetBounds_def SetZoom_def spec_bounds_def Let_def)

lemma SetCenter_GetBounds: "GetBounds (SetCenter m c) = GetBounds m"
  by (simp add: GetBounds_def SetCenter_def)

section \<open>The shortcuts and the far points\<close>

text \<open>
  C8. With \<open>p = sqrt((a - 0.25)\<^sup>2 + b\<^sup>2)\<close>: if \<open>a \<le> p - 2 p\<^sup>2 + 0.25\<close> (main cardioid) or
  \<open>(a + 1)\<^sup>2 + b\<^sup>2 \<le> 1/16\<close> (period-2 bulb), as the program computes and compares them,
  then \<^verbatim>\<open>pointInSet\<close> returns \<open>maxIterations\<close>, whatever the orbit of the point does. The
  origin is in the cardioid and \<open>-1\<close> is in the bulb: both return \<open>N\<close> for every \<open>N\<close>.
\<close>

theorem pointInSet_shortcuts:
  "((let p = math_Sqrt F (fadd F (math_Pow F (fsub F a (fconst F (1/4))) (fconst F 2))
                                 (math_Pow F b (fconst F 2)))
     in fle F a (fadd F (fsub F p (fmul F (fconst F 2) (math_Pow F p (fconst F 2)))) (fconst F (1/4))))
    \<or> fle F (fadd F (math_Pow F (fadd F a (fconst F 1)) (fconst F 2)) (math_Pow F b (fconst F 2)))
             (fconst F (1/16))
    \<longrightarrow> pointInSet F (a, b) N = N)
   \<and> pointInSet ideal (Fin 0, Fin 0) N = N
   \<and> pointInSet ideal (Fin (- 1), Fin 0) N = N"
proof (intro conjI impI)
  assume "(let p = math_Sqrt F (fadd F (math_Pow F (fsub F a (fconst F (1/4))) (fconst F 2))
                                 (math_Pow F b (fconst F 2)))
     in fle F a (fadd F (fsub F p (fmul F (fconst F 2) (math_Pow F p (fconst F 2)))) (fconst F (1/4))))
    \<or> fle F (fadd F (math_Pow F (fadd F a (fconst F 1)) (fconst F 2)) (math_Pow F b (fconst F 2)))
             (fconst F (1/16))"
  then have "pointInCardioid F a b \<or> pointInPeriod2Bulb F a b"
    by (simp add: pointInCardioid_def pointInPeriod2Bulb_def)
  then show "pointInSet F (a, b) N = N"
    by (simp add: pointInSet_def)
next
  have "pointInCardioid ideal (Fin 0) (Fin 0)"
    by (simp add: ideal_eval)
  then show "pointInSet ideal (Fin 0, Fin 0) N = N"
    by (simp add: pointInSet_def)
next
  have "pointInPeriod2Bulb ideal (Fin (- 1)) (Fin 0)"
    by (simp add: ideal_eval)
  then show "pointInSet ideal (Fin (- 1), Fin 0) N = N"
    by (simp add: pointInSet_def)
qed

theorem pointInSet_shortcuts_witness:
  "i_le (Fin 0) (i_add (i_sub (Fin (1/4)) (i_mul (Fin 2) (i_mul (Fin (1/4)) (Fin (1/4))))) (Fin (1/4)))
   \<and> pointInSet ideal (Fin 0, Fin 0) 1000 = 1000
   \<and> i_le (i_add (i_mul (i_add (Fin (- 1)) (Fin 1)) (i_add (Fin (- 1)) (Fin 1))) (i_mul (Fin 0) (Fin 0)))
           (Fin (1/16))
   \<and> pointInSet ideal (Fin (- 1), Fin 0) 1000 = 1000"
proof -
  have "pointInSet ideal (Fin 0, Fin 0) 1000 = 1000"
    using pointInSet_shortcuts [of ideal "Fin 0" "Fin 0" 1000 ] by (simp add: ideal_eval)
  moreover have "pointInSet ideal (Fin (- 1), Fin 0) 1000 = 1000"
    using pointInSet_shortcuts [of ideal "Fin (- 1)" "Fin 0" 1000] by (simp add: ideal_eval)
  ultimately show ?thesis by (simp add: i_sub_def)
qed

lemma first_iteration:
  assumes "0 < N"
    and "\<not> ceq F z (cconst F 0)"
    and "fgt F (cmplx_Abs F z) (fconst F 2)"
    and "z = cadd F (cmplx_Pow F (cconst F 0) (cconst F 2)) c"
  shows "pointInSet_loop F c N 0 (cconst F 0) (cconst F 0) (cconst F 0) = 0"
  using assms by (subst pointInSet_loop.simps) (simp add: Let_def mandelbrotEscapeRadius_def)

lemma i_add_zero: "i_add (Fin 0) x = x"
  by (cases x) simp_all

lemma ideal_first: "cadd ideal (cmplx_Pow ideal (cconst ideal 0) (cconst ideal 2)) c = c"
  by (cases c) (simp add: cadd_def cconst_def i_cpow_def i_add_zero)

lemma ideal_far_nonzero: "i_gt (i_cabs c) (Fin 2) \<Longrightarrow> \<not> ceq ideal c (cconst ideal 0)"
proof (cases c)
  case (Pair x y)
  assume "i_gt (i_cabs c) (Fin 2)"
  with Pair show ?thesis
    by (cases x; cases y) (auto simp: ceq_def cconst_def)
qed

lemma pointInSet_ideal_far:
  assumes "0 < N" and "\<not> pointInCardioid ideal (fst d) (snd d)"
    and "\<not> pointInPeriod2Bulb ideal (fst d) (snd d)" and "i_gt (i_cabs d) (Fin 2)"
  shows "pointInSet ideal d N = 0"
proof -
  have "pointInSet_loop ideal d N 0 (cconst ideal 0) (cconst ideal 0) (cconst ideal 0) = 0"
    using assms ideal_far_nonzero[of d] ideal_first[of d, symmetric]
    by (intro first_iteration[where z = d]) simp_all
  with assms show ?thesis
    by (simp add: pointInSet_def)
qed

section \<open>Evaluating the interpretation with rounding\<close>

lemma binary64_sel [simp]:
  "fconst binary64 q = round64 (of_rat q)" "f_of_int binary64 n = round64 (of_int n)"
  "fadd binary64 = b_add" "fsub binary64 = b_sub" "fmul binary64 = b_mul" "fdiv binary64 = b_div"
  "feq binary64 = i_eq" "fle binary64 = i_le" "fgt binary64 = i_gt"
  "math_Sqrt binary64 = b_sqrt" "math_Pow binary64 = b_pow" "cmplx_Pow binary64 = b_cpow"
  "cmplx_Abs binary64 = b_cabs" "MapIntToFloat binary64 = b_map" "runtime_make binary64 = i_make"
  by (simp_all add: binary64_def)

lemma expo_eq:
  assumes "2 powi e \<le> \<bar>x\<bar>" and "\<bar>x\<bar> < 2 powi (e + 1)"
  shows "expo x = e"
proof -
  have "(0::real) < 2 powi e" by simp
  with assms(1) have pos: "0 < \<bar>x\<bar>" by linarith
  have p1: "(2::real) powr real_of_int e = 2 powi e"
    by (rule powr_real_of_int') simp_all
  have p2: "(2::real) powr real_of_int (e + 1) = 2 powi (e + 1)"
    by (rule powr_real_of_int') simp_all
  have "(\<lfloor>log 2 \<bar>x\<bar>\<rfloor> = e) =
        (2 powr real_of_int e \<le> \<bar>x\<bar> \<and> \<bar>x\<bar> < 2 powr real_of_int (e + 1))"
    using pos by (intro floor_log_eq_powr_iff) simp_all
  then have "\<lfloor>log 2 \<bar>x\<bar>\<rfloor> = e"
    using assms unfolding p1 p2 by blast
  then show ?thesis by (simp only: expo_def)
qed

lemma round_half_even_near:
  assumes "0 \<le> d" and "d < 1/2"
  shows "round_half_even (of_int m + d) = m"
proof -
  have "\<lfloor>of_int m + d\<rfloor> = m"
    using assms by (intro floor_unique) simp_all
  then show ?thesis
    using assms by (simp add: round_half_even_def)
qed

lemma round_half_even_int: "round_half_even (of_int m) = m"
  using round_half_even_near[of 0 m] by simp

lemma two_powi_bounds:
  "(2::real) powi (e + 52) = 2 ^ 52 * 2 powi e"
  "(2::real) powi (e + 52 + 1) = 2 ^ 53 * 2 powi e"
  "(2::real) ^ 53 * 2 powi 971 = 2 ^ 1024"
proof -
  show "(2::real) powi (e + 52) = 2 ^ 52 * 2 powi e"
    using power_int_add[of "2::real" e 52] by (simp only: power_int_numeral mult.commute) simp
  show "(2::real) powi (e + 52 + 1) = 2 ^ 53 * 2 powi e"
    using power_int_add[of "2::real" e 53] by (simp add: mult.commute add.assoc)
  have "(2::real) ^ 53 * 2 ^ 971 = 2 ^ (53 + 971)"
    by (simp only: power_add)
  then show "(2::real) ^ 53 * 2 powi 971 = 2 ^ 1024"
    by (simp only: power_int_numeral) simp
qed

text \<open>The rounding of \<open>(m + d) \<cdot> 2\<^sup>e\<close>, for \<open>m\<close> of 53 bits and \<open>d\<close> below a half.\<close>

lemma round64_down:
  assumes x: "x = (of_int m + d) * 2 powi e"
    and lo: "2 ^ 52 \<le> m" and hi: "m < 2 ^ 53"
    and d: "0 \<le> d" "d < 1/2"
    and e: "- 1074 \<le> e" "e \<le> 971"
  shows "round64 x = Fin (of_int m * 2 powi e)"
proof -
  have p: "(0::real) < 2 powi e" by simp
  have "real_of_int (2 ^ 52) \<le> of_int m"
    using lo by (simp only: of_int_le_iff)
  then have m1: "(2::real) ^ 52 \<le> of_int m" by simp
  have "m + 1 \<le> 2 ^ 53" using hi by simp
  then have "real_of_int (m + 1) \<le> of_int (2 ^ 53)"
    by (simp only: of_int_le_iff)
  then have m2: "of_int m + 1 \<le> (2::real) ^ 53" by simp
  have mp: "(0::real) < of_int m + d" using m1 d by simp
  have xpos: "0 < x"
    unfolding x using mp p by (rule mult_pos_pos)
  have ax: "\<bar>x\<bar> = (of_int m + d) * 2 powi e"
    using xpos by (simp add: x)
  have "2 ^ 52 * 2 powi e \<le> (of_int m + d) * (2::real) powi e"
    using m1 d p by (intro mult_right_mono) simp_all
  then have a: "2 powi (e + 52) \<le> \<bar>x\<bar>"
    by (simp only: ax two_powi_bounds)
  have "(of_int m + d) * (2::real) powi e < 2 ^ 53 * 2 powi e"
    using m2 d p by (intro mult_strict_right_mono) simp_all
  then have b: "\<bar>x\<bar> < 2 powi (e + 52 + 1)"
    by (simp only: ax two_powi_bounds)
  have ex: "expo x = e + 52"
    using a b by (rule expo_eq)
  have u: "max (expo x) (- 1022) - 52 = e"
    using e by (simp add: ex)
  have q: "x / 2 powi e = of_int m + d"
    by (simp add: x)
  have r: "round_half_even (of_int m + d) = m"
    using d by (rule round_half_even_near)
  have le: "2 powi e \<le> (2::real) powi 971"
    using e by (intro power_int_increasing) simp_all
  have "of_int m < (2::real) ^ 53" using m2 by simp
  then have "of_int m * 2 powi e < (2::real) ^ 53 * 2 powi 971"
    using le m1 p by (intro mult_less_le_imp_less) simp_all
  then have lt: "of_int m * 2 powi e < (2::real) ^ 1024"
    by (simp only: two_powi_bounds)
  have "0 \<le> of_int m * (2::real) powi e"
    using m1 p by simp
  then have "\<bar>of_int m * (2::real) powi e\<bar> = of_int m * 2 powi e"
    by (rule abs_of_nonneg)
  with lt have fin: "\<not> 2 ^ 1024 \<le> \<bar>2 powi e * real_of_int m\<bar>"
    by (simp only: mult.commute not_le)
  have nz: "x \<noteq> 0" using xpos by simp
  show ?thesis
    unfolding round64_def Let_def u q r
    using nz fin by (simp only: if_False mult.commute)
qed

text \<open>A number of 53 significant bits, in the range of the format, is not changed.\<close>

lemma round64_dyadic:
  assumes x: "x = of_int m * 2 powi e"
    and lo: "2 ^ 52 \<le> \<bar>m\<bar>" and hi: "\<bar>m\<bar> < 2 ^ 53"
    and e: "- 1074 \<le> e" "e \<le> 971"
  shows "round64 x = Fin x"
proof -
  have p: "(0::real) < 2 powi e" by simp
  have ax: "\<bar>x\<bar> = of_int \<bar>m\<bar> * 2 powi e"
    by (simp add: x abs_mult)
  have "real_of_int (2 ^ 52) \<le> of_int \<bar>m\<bar>"
    using lo by (simp only: of_int_le_iff)
  then have m1: "(2::real) ^ 52 \<le> of_int \<bar>m\<bar>" by simp
  have "real_of_int \<bar>m\<bar> < of_int (2 ^ 53)"
    using hi by (simp only: of_int_less_iff)
  then have m2: "of_int \<bar>m\<bar> < (2::real) ^ 53" by simp
  have "2 ^ 52 * 2 powi e \<le> of_int \<bar>m\<bar> * (2::real) powi e"
    using m1 p by (intro mult_right_mono) simp_all
  then have a: "2 powi (e + 52) \<le> \<bar>x\<bar>"
    by (simp only: ax two_powi_bounds)
  have "of_int \<bar>m\<bar> * (2::real) powi e < 2 ^ 53 * 2 powi e"
    using m2 p by (intro mult_strict_right_mono) simp_all
  then have b: "\<bar>x\<bar> < 2 powi (e + 52 + 1)"
    by (simp only: ax two_powi_bounds)
  have ex: "expo x = e + 52"
    using a b by (rule expo_eq)
  have u: "max (expo x) (- 1022) - 52 = e"
    using e by (simp add: ex)
  have q: "x / 2 powi e = of_int m"
    by (simp add: x)
  have le: "2 powi e \<le> (2::real) powi 971"
    using e by (intro power_int_increasing) simp_all
  have "0 \<le> real_of_int \<bar>m\<bar>" by simp
  then have "of_int \<bar>m\<bar> * 2 powi e < (2::real) ^ 53 * 2 powi 971"
    using le m2 p by (intro mult_less_le_imp_less) simp_all
  then have "\<bar>x\<bar> < 2 ^ 1024"
    by (simp only: two_powi_bounds ax)
  then have fin: "\<not> 2 ^ 1024 \<le> \<bar>2 powi e * real_of_int m\<bar>"
    by (simp only: x mult.commute not_le)
  have "(0::real) < 2 powi (e + 52)" by simp
  then have "0 < \<bar>x\<bar>" using a by linarith
  then have nz: "x \<noteq> 0" by simp
  have "round64 x = Fin (2 powi e * of_int m)"
    unfolding round64_def Let_def u q round_half_even_int
    using nz fin by (simp only: if_False)
  then show ?thesis by (simp only: x mult.commute)
qed

lemma round64_zero: "round64 0 = Fin 0"
  by (simp add: round64_def)

text \<open>
  The values met when the evaluator is run at \<open>2 + 2\<^sup>-\<^sup>4\<^sup>0 i\<close>. All are doubles but three
  sums, in which the small term is below half a unit in the last place of the large one.
\<close>

lemma round64_exact:
  "round64 (1 / 4) = Fin (1 / 4)"
  "round64 (7 / 4) = Fin (7 / 4)"
  "round64 (2) = Fin (2)"
  "round64 (49 / 16) = Fin (49 / 16)"
  "round64 (1 / 2 ^ 80) = Fin (1 / 2 ^ 80)"
  "round64 (49 / 8) = Fin (49 / 8)"
  "round64 (- (35 / 8)) = Fin (- (35 / 8))"
  "round64 (- (33 / 8)) = Fin (- (33 / 8))"
  "round64 (3) = Fin (3)"
  "round64 (9) = Fin (9)"
  "round64 (1 / 16) = Fin (1 / 16)"
  "round64 (1) = Fin (1)"
  "round64 (1 / 2 ^ 40) = Fin (1 / 2 ^ 40)"
  "round64 (1 / 2 ^ 41) = Fin (1 / 2 ^ 41)"
  "round64 (1 / 2 ^ 82) = Fin (1 / 2 ^ 82)"
proof -
  show "round64 (1 / 4) = Fin (1 / 4)"
    by (rule round64_dyadic[where m = "4503599627370496" and e = "- 54"]) simp_all
  show "round64 (7 / 4) = Fin (7 / 4)"
    by (rule round64_dyadic[where m = "7881299347898368" and e = "- 52"]) simp_all
  show "round64 (2) = Fin (2)"
    by (rule round64_dyadic[where m = "4503599627370496" and e = "- 51"]) simp_all
  show "round64 (49 / 16) = Fin (49 / 16)"
    by (rule round64_dyadic[where m = "6896136929411072" and e = "- 51"]) simp_all
  show "round64 (1 / 2 ^ 80) = Fin (1 / 2 ^ 80)"
    by (rule round64_dyadic[where m = "4503599627370496" and e = "- 132"]) simp_all
  show "round64 (49 / 8) = Fin (49 / 8)"
    by (rule round64_dyadic[where m = "6896136929411072" and e = "- 50"]) simp_all
  show "round64 (- (35 / 8)) = Fin (- (35 / 8))"
    by (rule round64_dyadic[where m = "- 4925812092436480" and e = "- 50"]) simp_all
  show "round64 (- (33 / 8)) = Fin (- (33 / 8))"
    by (rule round64_dyadic[where m = "- 4644337115725824" and e = "- 50"]) simp_all
  show "round64 (3) = Fin (3)"
    by (rule round64_dyadic[where m = "6755399441055744" and e = "- 51"]) simp_all
  show "round64 (9) = Fin (9)"
    by (rule round64_dyadic[where m = "5066549580791808" and e = "- 49"]) simp_all
  show "round64 (1 / 16) = Fin (1 / 16)"
    by (rule round64_dyadic[where m = "4503599627370496" and e = "- 56"]) simp_all
  show "round64 (1) = Fin (1)"
    by (rule round64_dyadic[where m = "4503599627370496" and e = "- 52"]) simp_all
  show "round64 (1 / 2 ^ 40) = Fin (1 / 2 ^ 40)"
    by (rule round64_dyadic[where m = "4503599627370496" and e = "- 92"]) simp_all
  show "round64 (1 / 2 ^ 41) = Fin (1 / 2 ^ 41)"
    by (rule round64_dyadic[where m = "4503599627370496" and e = "- 93"]) simp_all
  show "round64 (1 / 2 ^ 82) = Fin (1 / 2 ^ 82)"
    by (rule round64_dyadic[where m = "4503599627370496" and e = "- 134"]) simp_all
qed

lemma round64_absorbed:
  "round64 (49 / 16 + 1 / 2 ^ 80) = Fin (49 / 16)"
  "round64 (9 + 1 / 2 ^ 80) = Fin (9)"
  "round64 (1 + 1 / 2 ^ 82) = Fin (1)"
proof -
  show "round64 (49 / 16 + 1 / 2 ^ 80) = Fin (49 / 16)"
    using round64_down[where m = "6896136929411072" and e = "- 51" and d = "1 / 2 ^ 29" and x = "49 / 16 + 1 / 2 ^ 80"]
    by simp
  show "round64 (9 + 1 / 2 ^ 80) = Fin (9)"
    using round64_down[where m = "5066549580791808" and e = "- 49" and d = "1 / 2 ^ 31" and x = "9 + 1 / 2 ^ 80"]
    by simp
  show "round64 (1 + 1 / 2 ^ 82) = Fin (1)"
    using round64_down[where m = "4503599627370496" and e = "- 52" and d = "1 / 2 ^ 30" and x = "1 + 1 / 2 ^ 82"]
    by simp
qed


lemma sqrt_49_16: "sqrt (49 / 16) = 7 / 4"
  by (rule real_sqrt_unique; simp add: power2_eq_square)

lemmas binary64_eval = b_add_def b_sub_def b_mul_def b_div_def b_sqrt_def b_pow_def b_cpow_def
  i_sub_def of_rat_divide of_rat_numeral_eq of_rat_1 sqrt_49_16 round64_zero Let_def

lemma near_2_outside:
  "\<not> pointInCardioid binary64 (Fin 2) (Fin (1 / 2 ^ 40))"
  "\<not> pointInPeriod2Bulb binary64 (Fin 2) (Fin (1 / 2 ^ 40))"
  using round64_exact round64_absorbed
  by (simp_all add: pointInCardioid_def pointInPeriod2Bulb_def binary64_eval)

lemma near_2_first:
  "cadd binary64 (cmplx_Pow binary64 (cconst binary64 0) (cconst binary64 2)) (Fin 2, Fin (1 / 2 ^ 40)) =
     (Fin 2, Fin (1 / 2 ^ 40))"
  using round64_exact
  by (simp add: cadd_def cconst_def binary64_eval)

lemma near_2_abs: "cmplx_Abs binary64 (Fin 2, Fin (1 / 2 ^ 40)) = Fin 2"
  using round64_exact round64_absorbed
  by (simp add: binary64_eval)

lemma near_2_modulus: "2 < sqrt (2 * 2 + (1 / 2 ^ 40) * (1 / 2 ^ 40))"
  by (rule real_less_rsqrt) simp


section \<open>The first step of the evaluator\<close>

lemma loop_continue:
  assumes "i < N" and "z = cadd F (cmplx_Pow F cur (cconst F 2)) c"
    and "\<not> ceq F z l0" and "\<not> ceq F z l1"
    and "\<not> fgt F (cmplx_Abs F z) (fconst F mandelbrotEscapeRadius)"
  shows "pointInSet_loop F c N i l0 l1 cur = pointInSet_loop F c N (i + 1) z l0 z"
  using assms by (subst pointInSet_loop.simps) (simp add: Let_def)

lemma first_step:
  assumes "0 < N"
    and "\<not> pointInCardioid F (fst c) (snd c)" and "\<not> pointInPeriod2Bulb F (fst c) (snd c)"
  shows "(pointInSet F c N = 0) =
           (\<not> ceq F (cadd F (cmplx_Pow F (cconst F 0) (cconst F 2)) c) (cconst F 0)
            \<and> fgt F (cmplx_Abs F (cadd F (cmplx_Pow F (cconst F 0) (cconst F 2)) c)) (fconst F 2))"
proof -
  let ?z = "cadd F (cmplx_Pow F (cconst F 0) (cconst F 2)) c"
  have ps: "pointInSet F c N = pointInSet_loop F c N 0 (cconst F 0) (cconst F 0) (cconst F 0)"
    using assms by (simp add: pointInSet_def)
  show ?thesis
  proof (cases "ceq F ?z (cconst F 0)")
    case True
    then have "pointInSet F c N = N"
      using assms(1) unfolding ps by (subst pointInSet_loop.simps) (simp add: Let_def)
    with True assms(1) show ?thesis by simp
  next
    case nr: False
    show ?thesis
    proof (cases "fgt F (cmplx_Abs F ?z) (fconst F 2)")
      case True
      then have "pointInSet F c N = 0"
        using assms(1) nr unfolding ps
        by (subst pointInSet_loop.simps) (simp add: Let_def mandelbrotEscapeRadius_def)
      with True nr show ?thesis by simp
    next
      case False
      then have "pointInSet F c N = pointInSet_loop F c N 1 ?z (cconst F 0) ?z"
        using assms(1) nr unfolding ps
        by (subst pointInSet_loop.simps) (simp add: Let_def mandelbrotEscapeRadius_def)
      moreover have "1 \<le> pointInSet_loop F c N 1 ?z (cconst F 0) ?z"
        using loop_range[of 1 N F c ?z "cconst F 0" ?z] assms(1) by simp
      ultimately show ?thesis using False by simp
    qed
  qed
qed

text \<open>
  C10, as stated, fails. The point \<open>c = 2 + 2\<^sup>-\<^sup>4\<^sup>0 i\<close>, both parts doubles, has a modulus
  above 2 and is outside the two shortcuts. Its first iterate \<open>0\<^sup>2 + c\<close> is \<open>c\<close>, but the
  modulus the program computes for it is 2.0: \<^verbatim>\<open>cmplx.Abs\<close> is \<open>2 \<cdot> sqrt(1 + 2\<^sup>-\<^sup>8\<^sup>2)\<close> and
  the sum rounds to 1. The test \<^verbatim>\<open>cmplx.Abs(curr) > 2.0\<close> fails at step 0, and with
  \<open>maxIterations = 1\<close> the evaluator returns 1, not 0.
\<close>

theorem pointInSet_far_point_counterexample:
  "2 < sqrt (2 * 2 + (1 / 2 ^ 40) * (1 / 2 ^ 40))
   \<and> \<not> pointInCardioid binary64 (Fin 2) (Fin (1 / 2 ^ 40))
   \<and> \<not> pointInPeriod2Bulb binary64 (Fin 2) (Fin (1 / 2 ^ 40))
   \<and> cadd binary64 (cmplx_Pow binary64 (cconst binary64 0) (cconst binary64 2))
        (Fin 2, Fin (1 / 2 ^ 40)) = (Fin 2, Fin (1 / 2 ^ 40))
   \<and> cmplx_Abs binary64 (Fin 2, Fin (1 / 2 ^ 40)) = Fin 2
   \<and> pointInSet binary64 (Fin 2, Fin (1 / 2 ^ 40)) 1 = 1"
proof -
  let ?c = "(Fin 2, Fin (1 / 2 ^ 40))"
  let ?z = "cadd binary64 (cmplx_Pow binary64 (cconst binary64 0) (cconst binary64 2)) ?c"
  have z: "?z = ?c" by (rule near_2_first)
  have nr: "\<not> ceq binary64 ?c (cconst binary64 0)"
    by (simp add: ceq_def cconst_def round64_zero)
  have "fconst binary64 mandelbrotEscapeRadius = Fin 2"
    using round64_exact by (simp add: mandelbrotEscapeRadius_def binary64_eval)
  then have ne: "\<not> fgt binary64 (cmplx_Abs binary64 ?c) (fconst binary64 mandelbrotEscapeRadius)"
    unfolding near_2_abs by simp
  have "pointInSet binary64 ?c 1 = pointInSet_loop binary64 ?c 1 0 (cconst binary64 0)
          (cconst binary64 0) (cconst binary64 0)"
    using near_2_outside by (simp add: pointInSet_def)
  also have "\<dots> = pointInSet_loop binary64 ?c 1 (0 + 1) ?c (cconst binary64 0) ?c"
    using _ z[symmetric] nr nr ne by (rule loop_continue) simp
  also have "\<dots> = 1"
    by (subst pointInSet_loop.simps) simp
  finally show ?thesis
    using near_2_modulus near_2_outside near_2_first near_2_abs by simp
qed

text \<open>
  C10, amended. For \<open>c\<close> outside the two shortcuts and \<open>maxIterations = N > 0\<close>,
  \<^verbatim>\<open>pointInSet\<close> returns 0 exactly when the first computed iterate \<open>0\<^sup>2 + c\<close> is not equal
  to 0 and the modulus the program computes for it, \<^verbatim>\<open>cmplx.Abs\<close>, exceeds 2.0. So it
  returns 0 for every \<open>c\<close> not equal to 0 whose first iterate is \<open>c\<close> and whose computed
  modulus exceeds 2.0; and when the first iterate is \<open>c\<close> and the computed modulus does
  not exceed 2.0 it does not return 0, whatever the modulus of \<open>c\<close> in the real numbers.
\<close>

theorem pointInSet_far_point:
  "(0 < N \<and> \<not> pointInCardioid F (fst c) (snd c) \<and> \<not> pointInPeriod2Bulb F (fst c) (snd c)
    \<longrightarrow> (pointInSet F c N = 0) =
          (\<not> ceq F (cadd F (cmplx_Pow F (cconst F 0) (cconst F 2)) c) (cconst F 0)
           \<and> fgt F (cmplx_Abs F (cadd F (cmplx_Pow F (cconst F 0) (cconst F 2)) c)) (fconst F 2)))
   \<and> (0 < N \<and> \<not> pointInCardioid F (fst c) (snd c) \<and> \<not> pointInPeriod2Bulb F (fst c) (snd c)
      \<and> cadd F (cmplx_Pow F (cconst F 0) (cconst F 2)) c = c
      \<and> \<not> ceq F c (cconst F 0)
      \<and> fgt F (cmplx_Abs F c) (fconst F 2)
    \<longrightarrow> pointInSet F c N = 0)
   \<and> (0 < N \<and> \<not> pointInCardioid F (fst c) (snd c) \<and> \<not> pointInPeriod2Bulb F (fst c) (snd c)
      \<and> cadd F (cmplx_Pow F (cconst F 0) (cconst F 2)) c = c
      \<and> \<not> fgt F (cmplx_Abs F c) (fconst F 2)
    \<longrightarrow> pointInSet F c N \<noteq> 0)"
proof (intro conjI impI)
  assume h: "0 < N \<and> \<not> pointInCardioid F (fst c) (snd c) \<and> \<not> pointInPeriod2Bulb F (fst c) (snd c)"
  then show "(pointInSet F c N = 0) =
          (\<not> ceq F (cadd F (cmplx_Pow F (cconst F 0) (cconst F 2)) c) (cconst F 0)
           \<and> fgt F (cmplx_Abs F (cadd F (cmplx_Pow F (cconst F 0) (cconst F 2)) c)) (fconst F 2))"
    by (intro first_step) simp_all
next
  assume h: "0 < N \<and> \<not> pointInCardioid F (fst c) (snd c) \<and> \<not> pointInPeriod2Bulb F (fst c) (snd c)
      \<and> cadd F (cmplx_Pow F (cconst F 0) (cconst F 2)) c = c
      \<and> \<not> ceq F c (cconst F 0)
      \<and> fgt F (cmplx_Abs F c) (fconst F 2)"
  then show "pointInSet F c N = 0"
    using first_step[of N F c] by simp
next
  assume h: "0 < N \<and> \<not> pointInCardioid F (fst c) (snd c) \<and> \<not> pointInPeriod2Bulb F (fst c) (snd c)
      \<and> cadd F (cmplx_Pow F (cconst F 0) (cconst F 2)) c = c
      \<and> \<not> fgt F (cmplx_Abs F c) (fconst F 2)"
  then show "pointInSet F c N \<noteq> 0"
    using first_step[of N F c] by simp
qed

theorem pointInSet_far_point_witness:
  "(0::int) < 1000
   \<and> \<not> pointInCardioid ideal (Fin 3) (Fin 0) \<and> \<not> pointInPeriod2Bulb ideal (Fin 3) (Fin 0)
   \<and> cadd ideal (cmplx_Pow ideal (cconst ideal 0) (cconst ideal 2)) (Fin 3, Fin 0) = (Fin 3, Fin 0)
   \<and> \<not> ceq ideal (Fin 3, Fin 0) (cconst ideal 0)
   \<and> fgt ideal (cmplx_Abs ideal (Fin 3, Fin 0)) (fconst ideal 2)
   \<and> pointInSet ideal (Fin 3, Fin 0) 1000 = 0
   \<and> \<not> pointInCardioid binary64 (Fin 2) (Fin (1 / 2 ^ 40))
   \<and> \<not> pointInPeriod2Bulb binary64 (Fin 2) (Fin (1 / 2 ^ 40))
   \<and> cadd binary64 (cmplx_Pow binary64 (cconst binary64 0) (cconst binary64 2))
        (Fin 2, Fin (1 / 2 ^ 40)) = (Fin 2, Fin (1 / 2 ^ 40))
   \<and> \<not> fgt binary64 (cmplx_Abs binary64 (Fin 2, Fin (1 / 2 ^ 40))) (fconst binary64 2)
   \<and> pointInSet binary64 (Fin 2, Fin (1 / 2 ^ 40)) 1000 \<noteq> 0"
proof -
  let ?d = "(Fin 2, Fin (1 / 2 ^ 40))"
  have far: "fgt ideal (cmplx_Abs ideal (Fin 3, Fin 0)) (fconst ideal 2)"
    by (simp add: sqrt_vals)
  have nz: "\<not> ceq ideal (Fin 3, Fin 0) (cconst ideal 0)"
    by (simp add: ceq_def cconst_def)
  have a: "pointInSet ideal (Fin 3, Fin 0) 1000 = 0"
    using pointInSet_far_point [of 1000 ideal "(Fin 3, Fin 0)", THEN conjunct2, THEN conjunct1]
      out_3 far nz ideal_first[of "(Fin 3, Fin 0)"]
    by simp
  have two: "fconst binary64 2 = Fin 2"
    using round64_exact by (simp add: binary64_eval)
  have near: "\<not> fgt binary64 (cmplx_Abs binary64 ?d) (fconst binary64 2)"
    unfolding near_2_abs two by simp
  have b: "pointInSet binary64 ?d 1000 \<noteq> 0"
    using pointInSet_far_point [of 1000 binary64 ?d, THEN conjunct2, THEN conjunct2]
      near_2_outside near near_2_first
    by simp
  show ?thesis
    using a b far nz near out_3 near_2_outside near_2_first ideal_first[of "(Fin 3, Fin 0)"]
    by simp
qed

section \<open>Creation and the setters\<close>

lemma make_slice_ok: "makes F t n \<Longrightarrow> make_slice F t n zero = Inr (replicate (nat n) zero)"
  by (auto simp: makes_def make_slice_def)

lemma make_slice_neg: "n < 0 \<Longrightarrow> make_slice F t n zero = Inl PanicMakeSliceLen"
  by (simp add: make_slice_def)

lemma make_slice_Inr:
  "make_slice F t n zero = Inr xs \<Longrightarrow> makes F t n \<and> xs = replicate (nat n) zero"
  by (auto simp: makes_def make_slice_def split: if_splits allocation.splits)

lemma make_slice_Inl:
  "make_slice F t n zero = Inl e \<Longrightarrow> \<not> makes F t n \<and> (e = PanicMakeSliceLen \<or> e = FatalOutOfMemory)"
  by (auto simp: makes_def make_slice_def split: if_splits allocation.splits)

lemma makes_nonneg: "makes F t n \<Longrightarrow> 0 \<le> n"
  by (auto simp: makes_def)

lemma makes_ideal: "0 \<le> n \<Longrightarrow> elem_size t * n \<le> 2 ^ 48 \<Longrightarrow> makes ideal t n"
  by (auto simp: makes_def i_make_def)

lemma alloc_columns_ok:
  "makes F t height \<Longrightarrow> 0 \<le> i \<Longrightarrow> i \<le> width \<Longrightarrow> length g = nat width \<Longrightarrow>
   alloc_columns F t width height zero i g =
     Inr (take (nat i) g @ replicate (nat (width - i)) (replicate (nat height) zero))"
proof (induction F t width height zero i g rule: alloc_columns.induct)
  case (1 F t width height zero i g)
  show ?case
  proof (cases "i < width")
    case False
    with 1 show ?thesis by (subst alloc_columns.simps) simp
  next
    case True
    let ?col = "replicate (nat height) zero"
    have ms: "make_slice F t height zero = Inr ?col"
      using 1(2) by (rule make_slice_ok)
    have rng: "0 \<le> i \<and> i < int (length g)"
      using True 1 by simp
    have "alloc_columns F t width height zero i g =
          alloc_columns F t width height zero (i + 1) (g[nat i := ?col])"
      using True ms rng by (subst alloc_columns.simps) simp
    also have "\<dots> = Inr (take (nat (i + 1)) (g[nat i := ?col])
                        @ replicate (nat (width - (i + 1))) ?col)"
      using 1(1)[OF True ms rng] 1(2-) True by simp
    also have "take (nat (i + 1)) (g[nat i := ?col]) = take (nat i) g @ [?col]"
    proof -
      have lt: "nat i < length g" using rng by linarith
      then have "nat i < length (g[nat i := ?col])" by simp
      then have "take (Suc (nat i)) (g[nat i := ?col]) =
                 take (nat i) (g[nat i := ?col]) @ [g[nat i := ?col] ! nat i]"
        by (rule take_Suc_conv_app_nth)
      moreover have "nat (i + 1) = Suc (nat i)" using rng by linarith
      ultimately show ?thesis using lt by simp
    qed
    also have "(take (nat i) g @ [?col]) @ replicate (nat (width - (i + 1))) ?col =
               take (nat i) g @ replicate (nat (width - i)) ?col"
    proof -
      have "nat (width - i) = Suc (nat (width - (i + 1)))" using True by simp
      then show ?thesis by simp
    qed
    finally show ?thesis .
  qed
qed

lemma alloc_columns_empty: "width \<le> 0 \<Longrightarrow> alloc_columns F t width height zero 0 g = Inr g"
  by (subst alloc_columns.simps) simp

lemma alloc_columns_fails:
  "make_slice F t height zero = Inl e \<Longrightarrow> 0 < width \<Longrightarrow>
   alloc_columns F t width height zero 0 g = Inl e"
  by (subst alloc_columns.simps) simp

lemma alloc_columns_neg:
  "height < 0 \<Longrightarrow> 0 < width \<Longrightarrow> alloc_columns F t width height zero 0 g = Inl PanicMakeSliceLen"
  by (simp add: alloc_columns_fails make_slice_neg)

lemma alloc_grid:
  "0 \<le> width \<Longrightarrow> makes F t height \<Longrightarrow>
   alloc_columns F t width height zero 0 (replicate (nat width) []) =
     Inr (replicate (nat width) (replicate (nat height) zero))"
  by (simp add: alloc_columns_ok)

lemma SetMaxIterations_ok:
  "makes F T_uint32 i \<Longrightarrow>
   SetMaxIterations F m i = Inr (m\<lparr>maxIterations := i, histogram := replicate (nat i) 0\<rparr>)"
  by (simp add: SetMaxIterations_def make_slice_ok)

lemma SetMaxIterations_neg: "i < 0 \<Longrightarrow> SetMaxIterations F m i = Inl PanicMakeSliceLen"
  by (simp add: SetMaxIterations_def make_slice_neg)

lemma SetMaxIterations_returns:
  "(\<exists>m'. SetMaxIterations F m i = Inr m') = makes F T_uint32 i"
  by (auto simp: SetMaxIterations_def Let_def dest: make_slice_Inr make_slice_Inl
      split: sum.splits)

lemma Create_ok:
  assumes "makes F T_uint32 1000" and "makes F T_slice_uint32 width" and "makes F T_uint32 height"
  shows "Create F width height c =
     Inr ((SetZoom F ((new_Mandelbrot F width height c)
             \<lparr>maxIterations := 1000, histogram := replicate 1000 0\<rparr>) (fconst F (1/2)))
          \<lparr>buffer := replicate (nat width) (replicate (nat height) 0)\<rparr>)"
  using assms makes_nonneg[OF assms(2)]
  by (simp add: Create_def SetMaxIterations_ok DefaultMaxIterations_def DefaultZoomLevel_def
      make_slice_ok alloc_grid Let_def)

lemma Create_zero_width:
  assumes "width = 0" and "makes F T_uint32 1000"
  shows "Create F width height c =
     Inr ((SetZoom F ((new_Mandelbrot F width height c)
             \<lparr>maxIterations := 1000, histogram := replicate 1000 0\<rparr>) (fconst F (1/2)))
          \<lparr>buffer := []\<rparr>)"
  using assms
  by (simp add: Create_def SetMaxIterations_ok DefaultMaxIterations_def DefaultZoomLevel_def
      make_slice_def alloc_columns_empty Let_def)

lemma Create_panics:
  assumes "makes F T_uint32 1000"
    and "width < 0 \<or> (makes F T_slice_uint32 width \<and> 0 < width \<and> height < 0)"
  shows "Create F width height c = Inl PanicMakeSliceLen"
  using assms
  by (auto simp: Create_def SetMaxIterations_ok DefaultMaxIterations_def DefaultZoomLevel_def
      make_slice_neg make_slice_ok alloc_columns_neg Let_def)

lemma Create_returns:
  "(\<exists>v. Create F width height c = Inr v) =
   (makes F T_uint32 1000 \<and> makes F T_slice_uint32 width \<and>
    (width = 0 \<or> makes F T_uint32 height))"
proof
  assume "\<exists>v. Create F width height c = Inr v"
  then obtain v where v: "Create F width height c = Inr v" ..
  from v obtain m1 where m1: "SetMaxIterations F (new_Mandelbrot F width height c) 1000 = Inr m1"
    by (auto simp: Create_def DefaultMaxIterations_def split: sum.splits)
  then have a: "makes F T_uint32 1000"
    using SetMaxIterations_returns by blast
  from v m1 obtain cols where cols: "make_slice F T_slice_uint32 width ([]::uint32 list) = Inr cols"
    by (auto simp: Create_def DefaultMaxIterations_def Let_def split: sum.splits)
  then have b: "makes F T_slice_uint32 width"
    by (auto dest: make_slice_Inr)
  have "width = 0 \<or> makes F T_uint32 height"
  proof (cases "width = 0")
    case False
    with b have pos: "0 < width" by (auto simp: makes_def)
    show ?thesis
    proof (cases "make_slice F T_uint32 height (0::uint32)")
      case (Inl e)
      then have "alloc_columns F T_uint32 width height (0::uint32) 0 cols = Inl e"
        using pos by (rule alloc_columns_fails)
      with v m1 cols show ?thesis
        by (simp add: Create_def DefaultMaxIterations_def Let_def)
    next
      case (Inr col)
      then show ?thesis by (auto dest: make_slice_Inr)
    qed
  qed simp
  with a b show "makes F T_uint32 1000 \<and> makes F T_slice_uint32 width \<and>
    (width = 0 \<or> makes F T_uint32 height)" by simp
next
  assume "makes F T_uint32 1000 \<and> makes F T_slice_uint32 width \<and>
    (width = 0 \<or> makes F T_uint32 height)"
  then show "\<exists>v. Create F width height c = Inr v"
    by (auto simp: Create_ok Create_zero_width)
qed

lemma Create_fields:
  assumes "Create F width height c = Inr v"
  shows "ImageWidth v = width \<and> ImageHeight v = height \<and> center v = c
       \<and> GetMaxIterations v = 1000 \<and> GetZoom v = fconst F (1/2)
       \<and> GetHistogram v = replicate 1000 0
       \<and> GetBuffer v = replicate (nat width) (replicate (nat height) 0)"
proof -
  from assms have "\<exists>v. Create F width height c = Inr v" ..
  then have mk: "makes F T_uint32 1000" "makes F T_slice_uint32 width"
    "width = 0 \<or> makes F T_uint32 height"
    by (simp_all add: Create_returns)
  show ?thesis
  proof (cases "width = 0")
    case True
    with assms mk show ?thesis
      by (auto simp: Create_zero_width SetZoom_def new_Mandelbrot_def Let_def
          GetMaxIterations_def GetZoom_def GetHistogram_def GetBuffer_def)
  next
    case False
    with assms mk show ?thesis
      by (auto simp: Create_ok SetZoom_def new_Mandelbrot_def Let_def
          GetMaxIterations_def GetZoom_def GetHistogram_def GetBuffer_def)
  qed
qed

lemma pointInSet_nonpositive: "N \<le> 0 \<Longrightarrow> pointInSet F c N = N"
  by (simp add: pointInSet_def Let_def pointInSet_loop.simps)

text \<open>
  C3, as stated, fails: \<^verbatim>\<open>Create(0, 0, 0)\<close> returns a view (whose vertical bounds are NaN,
  from 0/0), \<^verbatim>\<open>SetMaxIterations(m, 0)\<close> returns with an empty histogram, and
  \<^verbatim>\<open>SetZoom(m, 0)\<close> stores the zoom 0 and infinite bounds. No error is reported.
\<close>

theorem configuration_not_validated_counterexample:
  "Create ideal 0 0 (Fin 0, Fin 0) =
     Inr \<lparr>ImageWidth = 0, ImageHeight = 0, center = (Fin 0, Fin 0), zoomLevel = Fin (1/2),
          maxIterations = 1000, buffer = [], minX = Fin (- 2), minY = NaN, maxX = Fin 2,
          maxY = NaN, histogram = replicate 1000 0, hue = []\<rparr>
   \<and> SetMaxIterations ideal (new_Mandelbrot ideal 1 1 (Fin 0, Fin 0)) 0 =
     Inr ((new_Mandelbrot ideal 1 1 (Fin 0, Fin 0))\<lparr>maxIterations := 0, histogram := []\<rparr>)
   \<and> GetZoom (SetZoom ideal (new_Mandelbrot ideal 1 1 (Fin 0, Fin 0)) (Fin 0)) = Fin 0
   \<and> GetBounds (SetZoom ideal (new_Mandelbrot ideal 1 1 (Fin 0, Fin 0)) (Fin 0)) =
     (NInf, NInf, PInf, PInf)"
  by (simp add: Create_zero_width SetMaxIterations_ok makes_ideal SetZoom_def GetZoom_def
      GetBounds_def new_Mandelbrot_def Let_def i_sub_def of_rat_divide)

text \<open>
  C3, amended. No configuration value is validated and no function returns an error
  value; the one thing that stops a configuration is \<^verbatim>\<open>make\<close>.
  \<^verbatim>\<open>SetMaxIterations(m, i)\<close> returns exactly when \<^verbatim>\<open>make\<close> gives it \<open>i\<close> slots, and then it
  has stored \<open>i\<close> and a zeroed histogram of length \<open>i\<close>. \<^verbatim>\<open>make\<close> always does so for
  \<open>i = 0\<close>, panics for \<open>i < 0\<close>, and for \<open>i > 0\<close> does what the runtime decides (a length
  above the limit of the runtime is the same panic, no memory left is fatal).
  \<^verbatim>\<open>SetZoom\<close> stores any zoom. \<^verbatim>\<open>Create(width, height, c)\<close> returns exactly when \<^verbatim>\<open>make\<close>
  gives it the 1000 slots of the default histogram, \<open>width\<close> columns and, unless \<open>width\<close> is
  0, \<open>height\<close> cells; the view returned has the two dimensions as given, 1000 iterations
  and zoom 0.5. Once the default histogram is allocated, \<^verbatim>\<open>Create\<close> panics in \<^verbatim>\<open>make\<close> for
  \<open>width < 0\<close>, and for \<open>height < 0\<close> when \<open>width > 0\<close> columns were allocated. The
  evaluator has no validation either: for \<open>maxIterations \<le> 0\<close> it returns \<open>maxIterations\<close>.
\<close>

theorem configuration_not_validated:
  "(\<exists>m'. SetMaxIterations F m i = Inr m') = makes F T_uint32 i
   \<and> (makes F T_uint32 i \<longrightarrow>
        SetMaxIterations F m i = Inr (m\<lparr>maxIterations := i, histogram := replicate (nat i) 0\<rparr>))
   \<and> makes F T_uint32 0
   \<and> (i < 0 \<longrightarrow> SetMaxIterations F m i = Inl PanicMakeSliceLen)
   \<and> (0 < i \<longrightarrow> makes F T_uint32 i = (runtime_make F T_uint32 i = Allocated))
   \<and> GetZoom (SetZoom F m z) = z
   \<and> (\<exists>v. Create F width height c = Inr v) =
       (makes F T_uint32 1000 \<and> makes F T_slice_uint32 width \<and>
        (width = 0 \<or> makes F T_uint32 height))
   \<and> (Create F width height c = Inr v \<longrightarrow>
        ImageWidth v = width \<and> ImageHeight v = height \<and> GetMaxIterations v = 1000
        \<and> GetZoom v = fconst F (1/2))
   \<and> (makes F T_uint32 1000 \<and>
        (width < 0 \<or> (makes F T_slice_uint32 width \<and> 0 < width \<and> height < 0)) \<longrightarrow>
        Create F width height c = Inl PanicMakeSliceLen)
   \<and> (N \<le> 0 \<longrightarrow> pointInSet F p N = N)"
proof (intro conjI impI)
  show "(\<exists>m'. SetMaxIterations F m i = Inr m') = makes F T_uint32 i"
    by (rule SetMaxIterations_returns)
  show "(\<exists>v. Create F width height c = Inr v) =
       (makes F T_uint32 1000 \<and> makes F T_slice_uint32 width \<and>
        (width = 0 \<or> makes F T_uint32 height))"
    by (rule Create_returns)
  show "makes F T_uint32 0" by (simp add: makes_def)
  show "GetZoom (SetZoom F m z) = z" by (simp add: GetZoom_def SetZoom_def Let_def)
next
  assume "makes F T_uint32 i"
  then show "SetMaxIterations F m i = Inr (m\<lparr>maxIterations := i, histogram := replicate (nat i) 0\<rparr>)"
    by (rule SetMaxIterations_ok)
next
  assume "i < 0"
  then show "SetMaxIterations F m i = Inl PanicMakeSliceLen" by (rule SetMaxIterations_neg)
next
  assume "0 < i"
  then show "makes F T_uint32 i = (runtime_make F T_uint32 i = Allocated)"
    by (simp add: makes_def)
next
  assume v: "Create F width height c = Inr v"
  from Create_fields[OF v]
  show "ImageWidth v = width" "ImageHeight v = height" "GetMaxIterations v = 1000"
    "GetZoom v = fconst F (1/2)"
    by simp_all
next
  assume "makes F T_uint32 1000 \<and>
        (width < 0 \<or> (makes F T_slice_uint32 width \<and> 0 < width \<and> height < 0))"
  then show "Create F width height c = Inl PanicMakeSliceLen"
    by (intro Create_panics) auto
next
  assume "N \<le> 0"
  then show "pointInSet F p N = N" by (rule pointInSet_nonpositive)
qed

theorem configuration_not_validated_witness:
  "makes ideal T_uint32 5
   \<and> SetMaxIterations ideal (new_Mandelbrot ideal 1 1 (Fin 0, Fin 0)) 5 =
        Inr ((new_Mandelbrot ideal 1 1 (Fin 0, Fin 0))\<lparr>maxIterations := 5, histogram := [0, 0, 0, 0, 0]\<rparr>)
   \<and> (- 1::int) < 0
   \<and> SetMaxIterations ideal (new_Mandelbrot ideal 1 1 (Fin 0, Fin 0)) (- 1) = Inl PanicMakeSliceLen
   \<and> (0::int) < 5 \<and> runtime_make ideal T_uint32 5 = Allocated
   \<and> (\<exists>v. Create ideal 0 (- 3) (Fin 0, Fin 0) = Inr v \<and> ImageWidth v = 0 \<and> ImageHeight v = - 3
            \<and> GetMaxIterations v = 1000 \<and> GetZoom v = Fin (1/2))
   \<and> makes ideal T_uint32 1000 \<and> Create ideal (- 1) 4 (Fin 0, Fin 0) = Inl PanicMakeSliceLen
   \<and> makes ideal T_slice_uint32 2 \<and> Create ideal 2 (- 1) (Fin 0, Fin 0) = Inl PanicMakeSliceLen
   \<and> (0::int) \<le> 0 \<and> pointInSet ideal (Fin 3, Fin 0) 0 = 0"
proof -
  let ?m = "new_Mandelbrot ideal 1 1 (Fin 0, Fin 0)"
  let ?c = "(Fin 0, Fin 0)"
  have mk: "makes ideal T_uint32 5" "makes ideal T_uint32 1000" "makes ideal T_slice_uint32 2"
    "makes ideal T_slice_uint32 0" "runtime_make ideal T_uint32 5 = Allocated"
    by (simp_all add: makes_def i_make_def)
  note a = configuration_not_validated [of ideal ?m 5 "Fin 0" 0 "- 3" ?c _ 0 "(Fin 3, Fin 0)"]
  note b = configuration_not_validated [of ideal ?m "- 1" "Fin 0" "- 1" 4 ?c _ 0 "(Fin 3, Fin 0)"]
  note c = configuration_not_validated [of ideal ?m "- 1" "Fin 0" 2 "- 1" ?c _ 0 "(Fin 3, Fin 0)"]
  have 1: "SetMaxIterations ideal ?m 5 = Inr (?m\<lparr>maxIterations := 5, histogram := [0, 0, 0, 0, 0]\<rparr>)"
    using a mk by (simp add: numeral_eq_Suc)
  have 2: "SetMaxIterations ideal ?m (- 1) = Inl PanicMakeSliceLen"
    using b by simp
  have "\<exists>v. Create ideal 0 (- 3) ?c = Inr v"
    using a mk by simp
  then obtain v where v: "Create ideal 0 (- 3) ?c = Inr v" ..
  have 3: "\<exists>v. Create ideal 0 (- 3) ?c = Inr v \<and> ImageWidth v = 0 \<and> ImageHeight v = - 3
            \<and> GetMaxIterations v = 1000 \<and> GetZoom v = Fin (1/2)"
    using configuration_not_validated [of ideal ?m 5 "Fin 0" 0 "- 3" ?c v 0 "(Fin 3, Fin 0)"] v
    by (simp add: of_rat_divide)
  have 4: "Create ideal (- 1) 4 ?c = Inl PanicMakeSliceLen"
    using b mk by simp
  have 5: "Create ideal 2 (- 1) ?c = Inl PanicMakeSliceLen"
    using c mk by simp
  have 6: "pointInSet ideal (Fin 3, Fin 0) 0 = 0"
    using a by simp
  from 1 2 3 4 5 6 mk show ?thesis by simp
qed

text \<open>
  C2 at a failing input. \<^verbatim>\<open>Create(1, 1, 0)\<close> has the bounds \<open>(-2, -2, 2, 2)\<close>. After
  \<^verbatim>\<open>SetCenter(m, 1 + 0i)\<close> the bounds are still \<open>(-2, -2, 2, 2)\<close>, where the claim asks for
  \<open>minX = 1 - 1/0.5 = -1\<close> and \<open>maxX = 3\<close>: \<^verbatim>\<open>SetCenter\<close> stores the center and nothing
  else, while \<^verbatim>\<open>SetZoom\<close> recomputes the bounds (\<open>SetZoom_consistent\<close>).
\<close>

theorem SetCenter_keeps_old_bounds:
  "(case Create ideal 1 1 (Fin 0, Fin 0) of
      Inl e \<Rightarrow> False
    | Inr m \<Rightarrow>
        GetBounds m = (Fin (- 2), Fin (- 2), Fin 2, Fin 2)
      \<and> GetBounds (SetCenter m (Fin 1, Fin 0)) = (Fin (- 2), Fin (- 2), Fin 2, Fin 2)
      \<and> spec_bounds ideal (Fin 1, Fin 0) (Fin (1/2)) 1 1 = (Fin (- 1), Fin (- 2), Fin 3, Fin 2)
      \<and> \<not> bounds_consistent ideal (SetCenter m (Fin 1, Fin 0)))"
  by (simp add: Create_ok makes_ideal SetZoom_def SetCenter_def GetBounds_def
      bounds_consistent_def spec_bounds_def new_Mandelbrot_def Let_def i_sub_def of_rat_divide)

section \<open>The loops after the barrier compute the cumulative sums\<close>

text \<open>
  When a loop returns, it returns the sum the specification describes: \<open>total\<close> is the sum
  of the slots below \<open>maxIterations\<close>, and the hue of a pixel is the sum of the quotients
  below its count, started from the value the cell had.
\<close>

lemma total_loop_sum:
  "0 \<le> i \<Longrightarrow> total_loop hist maxIter i tot = Inr t \<Longrightarrow>
   t = tot + sum_list (drop (nat i) (take (nat maxIter) hist))"
proof (induction hist maxIter i tot rule: total_loop.induct)
  case (1 hist maxIter i tot)
  show ?case
  proof (cases "i < maxIter")
    case False
    with 1(3) have "t = tot" by (subst (asm) total_loop.simps) simp
    with False 1(2) show ?thesis by simp
  next
    case True
    show ?thesis
    proof (cases "i < int (length hist)")
      case False
      with True 1(3) show ?thesis by (subst (asm) total_loop.simps) simp
    next
      case lt: True
      with True 1(2,3) have rec: "total_loop hist maxIter (i + 1) (tot + hist ! nat i) = Inr t"
        by (subst (asm) total_loop.simps) simp
      have rng: "0 \<le> i \<and> i < int (length hist)" using 1(2) lt by simp
      have t: "t = tot + hist ! nat i + sum_list (drop (nat (i + 1)) (take (nat maxIter) hist))"
        using 1(1)[OF True rng _ rec] 1(2) by simp
      have ni: "nat i < length (take (nat maxIter) hist)" using True lt 1(2) by simp
      have "drop (nat i) (take (nat maxIter) hist) =
            take (nat maxIter) hist ! nat i # drop (Suc (nat i)) (take (nat maxIter) hist)"
        using ni by (rule Cons_nth_drop_Suc [symmetric])
      moreover have "take (nat maxIter) hist ! nat i = hist ! nat i"
        using ni by simp
      moreover have "nat (i + 1) = Suc (nat i)" using 1(2) by linarith
      ultimately show ?thesis using t by (simp add: add.assoc)
    qed
  qed
qed

lemma total_loop_total: "total_loop hist maxIter 0 0 = Inr t \<Longrightarrow> t = spec_total hist maxIter"
  using total_loop_sum[of 0 hist maxIter 0 t] by (simp add: spec_total_def)

lemma hue_i_loop_fold:
  "0 \<le> i \<Longrightarrow> i \<le> v \<Longrightarrow> hue_i_loop F hist tot v i h = Inr h' \<Longrightarrow>
   h' = foldl (\<lambda>h i. fadd F h (hue_term F hist tot i)) h [nat i..<nat v]"
proof (induction F hist tot v i h rule: hue_i_loop.induct)
  case (1 F hist tot v i h)
  show ?case
  proof (cases "i < v")
    case False
    with 1(4) have "h' = h" by (subst (asm) hue_i_loop.simps) simp
    with False 1(2,3) show ?thesis by simp
  next
    case True
    show ?thesis
    proof (cases "i < int (length hist)")
      case False
      with True 1(4) show ?thesis by (subst (asm) hue_i_loop.simps) simp
    next
      case lt: True
      have rng: "0 \<le> i \<and> i < int (length hist)" using 1(2) lt by simp
      from True rng 1(4) have rec:
        "hue_i_loop F hist tot v (i + 1)
           (fadd F h (fdiv F (f_of_int F (uint (hist ! nat i))) (f_of_int F (uint tot)))) = Inr h'"
        by (subst (asm) hue_i_loop.simps) simp
      have "h' = foldl (\<lambda>h i. fadd F h (hue_term F hist tot i))
                   (fadd F h (fdiv F (f_of_int F (uint (hist ! nat i))) (f_of_int F (uint tot))))
                   [nat (i + 1)..<nat v]"
        using 1(1)[OF True rng _ _ rec] 1(2) True by simp
      moreover have "[nat i..<nat v] = nat i # [nat (i + 1)..<nat v]"
      proof -
        have "nat i < nat v" using True 1(2) by simp
        moreover have "nat (i + 1) = Suc (nat i)" using 1(2) by linarith
        ultimately show ?thesis by (simp add: upt_conv_Cons)
      qed
      ultimately show ?thesis by (simp add: hue_term_def)
    qed
  qed
qed

lemma hue_i_loop_zero: "hue_i_loop F hist tot 0 0 h = Inr h"
  by (subst hue_i_loop.simps) simp


lemma hue_from_zero: "hue_from F hist tot 0 h = h"
  by (simp add: hue_from_def)

lemma spec_hue_from: "spec_hue F hist tot v = hue_from F hist tot v (fconst F 0)"
  by (simp add: spec_hue_def)

lemma hue_i_loop_from:
  "hue_i_loop F hist tot (uint v) 0 h = Inr h' \<Longrightarrow> h' = hue_from F hist tot v h"
  using hue_i_loop_fold[of 0 "uint v" F hist tot h h'] by (simp add: hue_from_def)

lemma is_grid_update:
  "is_grid g W H \<Longrightarrow> x < nat W \<Longrightarrow> is_grid (g[x := (g ! x)[y := h]]) W H"
  by (auto simp: is_grid_def nth_list_update)

lemma grid_update_nth:
  "is_grid g W H \<Longrightarrow> x < nat W \<Longrightarrow> y < nat H \<Longrightarrow> x' < nat W \<Longrightarrow> y' < nat H \<Longrightarrow>
   g[x := (g ! x)[y := h]] ! x' ! y' = (if x' = x \<and> y' = y then h else g ! x' ! y')"
  by (auto simp: is_grid_def nth_list_update)

lemma hue_y_loop_cells:
  assumes "hue_y_loop F m tot x y hu = Inr hu'"
    and "0 \<le> y" and "0 \<le> x" and "x < ImageWidth m"
    and "is_grid hu (ImageWidth m) (ImageHeight m)"
  shows "is_grid hu' (ImageWidth m) (ImageHeight m) \<and>
         (\<forall>x' y'. x' < nat (ImageWidth m) \<longrightarrow> y' < nat (ImageHeight m) \<longrightarrow>
            hu' ! x' ! y' =
              (if x' = nat x \<and> nat y \<le> y'
               then hue_from F (histogram m) tot (buffer m ! x' ! y') (hu ! x' ! y')
               else hu ! x' ! y'))"
  using assms
proof (induction F m tot x y hu rule: hue_y_loop.induct)
  case (1 F m tot x y hu)
  let ?W = "ImageWidth m" and ?H = "ImageHeight m"
  show ?case
  proof (cases "y < ?H")
    case False
    with 1(2) have "hu' = hu" by (subst (asm) hue_y_loop.simps) simp
    with False 1(3,6) show ?thesis by auto
  next
    case True
    let ?v = "buffer m ! nat x ! nat y"
    have xr: "nat x < nat ?W" and yr: "nat y < nat ?H"
      using True 1(3,4,5) by auto
    have ing: "in_grid (buffer m) x y"
      using True 1(2) by (subst (asm) hue_y_loop.simps) (auto split: if_splits)
    have inh: "in_grid hu x y"
      using 1(6) xr yr 1(3,4) by (auto simp: in_grid_def is_grid_def)
    obtain h where h: "hue_i_loop F (histogram m) tot (uint ?v) 0 (hu ! nat x ! nat y) = Inr h"
      and rec0: "hue_y_loop F m tot x (y + 1)
                  (if 0 < uint ?v then hu[nat x := (hu ! nat x)[nat y := h]] else hu) = Inr hu'"
      using True ing inh 1(2)
      by (subst (asm) hue_y_loop.simps) (auto simp: Let_def split: sum.splits if_splits)
    have hval: "h = hue_from F (histogram m) tot ?v (hu ! nat x ! nat y)"
      using h by (rule hue_i_loop_from)
    let ?hu2 = "hu[nat x := (hu ! nat x)[nat y := h]]"
    have same: "(if 0 < uint ?v then ?hu2 else hu) = ?hu2"
    proof (cases "0 < uint ?v")
      case False
      moreover have "0 \<le> uint ?v" by simp
      ultimately have "uint ?v = 0" by linarith
      then have "?v = 0" by (simp add: uint_0_iff)
      then have "h = hu ! nat x ! nat y" using hval by (simp add: hue_from_zero)
      then show ?thesis by simp
    qed simp
    have rec: "hue_y_loop F m tot x (y + 1) ?hu2 = Inr hu'"
      using rec0 same by simp
    have g2: "is_grid ?hu2 ?W ?H"
      using 1(6) xr by (rule is_grid_update)
    have no: "\<not> (0 < uint ?v \<and> \<not> in_grid hu x y)" using inh by simp
    have IH: "is_grid hu' ?W ?H \<and>
         (\<forall>x' y'. x' < nat ?W \<longrightarrow> y' < nat ?H \<longrightarrow>
            hu' ! x' ! y' =
              (if x' = nat x \<and> nat (y + 1) \<le> y'
               then hue_from F (histogram m) tot (buffer m ! x' ! y') (?hu2 ! x' ! y')
               else ?hu2 ! x' ! y'))"
    proof -
      have y1: "0 \<le> y + 1" using 1(3) by simp
      show ?thesis
        by (rule 1(1)[OF True ing refl no h, unfolded same, OF rec y1 1(4) 1(5) g2])
    qed
    have ny: "nat (y + 1) = Suc (nat y)" using 1(3) by linarith
    show ?thesis
    proof (intro conjI allI impI)
      show "is_grid hu' ?W ?H" using IH by simp
    next
      fix x' y' assume b: "x' < nat ?W" "y' < nat ?H"
      have upd: "?hu2 ! x' ! y' = (if x' = nat x \<and> y' = nat y then h else hu ! x' ! y')"
        using 1(6) xr yr b by (rule grid_update_nth)
      show "hu' ! x' ! y' =
              (if x' = nat x \<and> nat y \<le> y'
               then hue_from F (histogram m) tot (buffer m ! x' ! y') (hu ! x' ! y')
               else hu ! x' ! y')"
        using IH b upd hval ny by (auto simp: le_Suc_eq)
    qed
  qed
qed


lemma hue_x_loop_cells:
  assumes "hue_x_loop F m tot x hu = Inr hu'"
    and "0 \<le> x"
    and "is_grid hu (ImageWidth m) (ImageHeight m)"
  shows "is_grid hu' (ImageWidth m) (ImageHeight m) \<and>
         (\<forall>x' y'. x' < nat (ImageWidth m) \<longrightarrow> y' < nat (ImageHeight m) \<longrightarrow>
            hu' ! x' ! y' =
              (if nat x \<le> x'
               then hue_from F (histogram m) tot (buffer m ! x' ! y') (hu ! x' ! y')
               else hu ! x' ! y'))"
  using assms
proof (induction F m tot x hu rule: hue_x_loop.induct)
  case (1 F m tot x hu)
  let ?W = "ImageWidth m" and ?H = "ImageHeight m"
  show ?case
  proof (cases "x < ?W")
    case False
    with 1(2) have "hu' = hu" by (subst (asm) hue_x_loop.simps) simp
    with False 1(3,4) show ?thesis by auto
  next
    case True
    obtain hu1 where col: "hue_y_loop F m tot x 0 hu = Inr hu1"
      and rec: "hue_x_loop F m tot (x + 1) hu1 = Inr hu'"
      using True 1(2) by (subst (asm) hue_x_loop.simps) (auto split: sum.splits)
    have c: "is_grid hu1 ?W ?H \<and>
         (\<forall>x' y'. x' < nat ?W \<longrightarrow> y' < nat ?H \<longrightarrow>
            hu1 ! x' ! y' =
              (if x' = nat x \<and> nat 0 \<le> y'
               then hue_from F (histogram m) tot (buffer m ! x' ! y') (hu ! x' ! y')
               else hu ! x' ! y'))"
      using col _ 1(3) True 1(4) by (rule hue_y_loop_cells) simp
    have x1: "0 \<le> x + 1" using 1(3) by simp
    have IH: "is_grid hu' ?W ?H \<and>
         (\<forall>x' y'. x' < nat ?W \<longrightarrow> y' < nat ?H \<longrightarrow>
            hu' ! x' ! y' =
              (if nat (x + 1) \<le> x'
               then hue_from F (histogram m) tot (buffer m ! x' ! y') (hu1 ! x' ! y')
               else hu1 ! x' ! y'))"
      using c by (intro 1(1)[OF True col rec x1]) simp
    have nx: "nat (x + 1) = Suc (nat x)" using 1(3) by linarith
    show ?thesis
    proof (intro conjI allI impI)
      show "is_grid hu' ?W ?H" using IH by simp
    next
      fix x' y' assume b: "x' < nat ?W" "y' < nat ?H"
      show "hu' ! x' ! y' =
              (if nat x \<le> x'
               then hue_from F (histogram m) tot (buffer m ! x' ! y') (hu ! x' ! y')
               else hu ! x' ! y')"
        using IH c b nx by (auto simp: le_Suc_eq)
    qed
  qed
qed

lemma Generate_hue_cells:
  assumes "Generate_hue F m = Inr m'"
    and "is_grid (hue m) (ImageWidth m) (ImageHeight m)"
    and "x < nat (ImageWidth m)" and "y < nat (ImageHeight m)"
  shows "hue m' ! x ! y =
           hue_from F (histogram m) (spec_total (histogram m) (maxIterations m))
             (buffer m ! x ! y) (hue m ! x ! y)"
    and "m' = m\<lparr>hue := hue m'\<rparr>"
proof -
  obtain tot hu where t: "total_loop (histogram m) (maxIterations m) 0 0 = Inr tot"
    and h: "hue_x_loop F m tot 0 (hue m) = Inr hu" and m': "m' = m\<lparr>hue := hu\<rparr>"
    using assms(1) by (auto simp: Generate_hue_def split: sum.splits)
  have tot: "tot = spec_total (histogram m) (maxIterations m)"
    using t by (rule total_loop_total)
  have "hu ! x ! y = hue_from F (histogram m) tot (buffer m ! x ! y) (hue m ! x ! y)"
    using hue_x_loop_cells[OF h _ assms(2)] assms(3,4) by simp
  then show "hue m' ! x ! y =
           hue_from F (histogram m) (spec_total (histogram m) (maxIterations m))
             (buffer m ! x ! y) (hue m ! x ! y)"
    using m' tot by simp
  show "m' = m\<lparr>hue := hue m'\<rparr>" using m' by simp
qed

lemma Generate_alloc_hue:
  assumes "Generate_alloc F m = Inr m1"
  shows "m1 = m\<lparr>histogram := replicate (nat (maxIterations m)) 0, hue := hue m1\<rparr>"
    and "0 \<le> maxIterations m" and "0 \<le> ImageWidth m"
    and "0 < ImageWidth m \<Longrightarrow> 0 \<le> ImageHeight m \<and>
         hue m1 = replicate (nat (ImageWidth m)) (replicate (nat (ImageHeight m)) (fconst F 0))"
    and "Generate_allocates F m"
proof -
  obtain h cols hu where h: "make_slice F T_uint32 (maxIterations m) (0::uint32) = Inr h"
    and cols: "make_slice F T_slice_float64 (ImageWidth m) ([]::'a list) = Inr cols"
    and hu: "alloc_columns F T_float64 (ImageWidth m) (ImageHeight m) (fconst F 0) 0 cols = Inr hu"
    and m1: "m1 = m\<lparr>histogram := h, hue := hu\<rparr>"
    using assms by (auto simp: Generate_alloc_def split: sum.splits)
  from make_slice_Inr[OF h] have mh: "makes F T_uint32 (maxIterations m)"
    and h': "h = replicate (nat (maxIterations m)) 0" by simp_all
  from make_slice_Inr[OF cols] have mc: "makes F T_slice_float64 (ImageWidth m)"
    and cols': "cols = replicate (nat (ImageWidth m)) []" by simp_all
  have a: "0 \<le> maxIterations m" and b: "0 \<le> ImageWidth m"
    using mh mc by (auto dest: makes_nonneg)
  show "m1 = m\<lparr>histogram := replicate (nat (maxIterations m)) 0, hue := hue m1\<rparr>"
    using m1 h' by simp
  show "0 \<le> maxIterations m" "0 \<le> ImageWidth m" by (rule a, rule b)
  have col: "makes F T_float64 (ImageHeight m)" if w: "0 < ImageWidth m"
  proof (cases "make_slice F T_float64 (ImageHeight m) (fconst F 0)")
    case (Inl e)
    then have "alloc_columns F T_float64 (ImageWidth m) (ImageHeight m) (fconst F 0) 0 cols = Inl e"
      using w by (rule alloc_columns_fails)
    with hu show ?thesis by simp
  next
    case (Inr c)
    then show ?thesis by (auto dest: make_slice_Inr)
  qed
  show "Generate_allocates F m"
  proof (cases "ImageWidth m = 0")
    case True
    with mh mc show ?thesis by (simp add: Generate_allocates_def)
  next
    case False
    with b have "0 < ImageWidth m" by simp
    with mh mc col show ?thesis by (simp add: Generate_allocates_def)
  qed
  assume w: "0 < ImageWidth m"
  have hh: "0 \<le> ImageHeight m"
    using col[OF w] by (rule makes_nonneg)
  have "hu = replicate (nat (ImageWidth m)) (replicate (nat (ImageHeight m)) (fconst F 0))"
    using hu b col[OF w] cols' by (simp add: alloc_grid)
  with hh m1 show "0 \<le> ImageHeight m \<and>
         hue m1 = replicate (nat (ImageWidth m)) (replicate (nat (ImageHeight m)) (fconst F 0))"
    by simp
qed

lemma Generate_pixels_fields:
  assumes "Generate_pixels F sched m1 = Inr m2"
  shows "m2 = m1\<lparr>buffer := buffer m2, histogram := histogram m2\<rparr>"
  using assms by (auto simp: Generate_pixels_def Let_def split: prod.splits if_splits)

lemma Generate_cells:
  assumes "Generate F sched m = Inr m'"
    and "0 \<le> x" and "x < ImageWidth m" and "0 \<le> y" and "y < ImageHeight m"
  shows "hue m' ! nat x ! nat y =
           spec_hue F (histogram m') (spec_total (histogram m') (maxIterations m'))
             (buffer m' ! nat x ! nat y)"
proof -
  obtain m1 m2 where a: "Generate_alloc F m = Inr m1" and p: "Generate_pixels F sched m1 = Inr m2"
    and h: "Generate_hue F m2 = Inr m'"
    using assms(1) by (auto simp: Generate_def split: sum.splits)
  have w: "0 < ImageWidth m" using assms(2,3) by simp
  note al = Generate_alloc_hue[OF a]
  have m1: "ImageWidth m1 = ImageWidth m" "ImageHeight m1 = ImageHeight m"
    by (subst al(1), simp)+
  have hue1: "hue m1 = replicate (nat (ImageWidth m)) (replicate (nat (ImageHeight m)) (fconst F 0))"
    using al(4)[OF w] by simp
  have m2: "ImageWidth m2 = ImageWidth m" "ImageHeight m2 = ImageHeight m" "hue m2 = hue m1"
    by (subst Generate_pixels_fields[OF p], simp add: m1)+
  have grid: "is_grid (hue m2) (ImageWidth m2) (ImageHeight m2)"
    using m2 hue1 by (simp add: is_grid_def)
  have xr: "nat x < nat (ImageWidth m2)" and yr: "nat y < nat (ImageHeight m2)"
    using assms(2-5) m2 by auto
  note c = Generate_hue_cells[OF h grid xr yr]
  have same: "histogram m' = histogram m2" "buffer m' = buffer m2" "maxIterations m' = maxIterations m2"
    by (subst c(2), simp)+
  have "hue m2 ! nat x ! nat y = fconst F 0"
    using xr yr m2 hue1 by simp
  with c(1) same show ?thesis
    by (simp add: spec_hue_from)
qed

section \<open>The loops after the barrier do not panic on a histogram of the right length\<close>

lemma total_loop_ok:
  "0 \<le> i \<Longrightarrow> maxIter \<le> int (length hist) \<Longrightarrow>
   total_loop hist maxIter i tot = Inr (tot + sum_list (drop (nat i) (take (nat maxIter) hist)))"
proof (induction hist maxIter i tot rule: total_loop.induct)
  case (1 hist maxIter i tot)
  show ?case
  proof (cases "i < maxIter")
    case False
    with 1(2) show ?thesis by (subst total_loop.simps) simp
  next
    case True
    have rng: "0 \<le> i \<and> i < int (length hist)" using True 1(2,3) by simp
    have "nat i < length hist" "nat i < nat maxIter" using True rng by linarith+
    then have ni: "nat i < length (take (nat maxIter) hist)" by simp
    have d: "drop (nat i) (take (nat maxIter) hist) =
             hist ! nat i # drop (Suc (nat i)) (take (nat maxIter) hist)"
      using Cons_nth_drop_Suc [OF ni, symmetric] ni by simp
    have n1: "nat (i + 1) = Suc (nat i)" using 1(2) by linarith
    have "total_loop hist maxIter i tot = total_loop hist maxIter (i + 1) (tot + hist ! nat i)"
      using True rng by (subst total_loop.simps) simp
    also have "\<dots> = Inr (tot + hist ! nat i + sum_list (drop (nat (i + 1)) (take (nat maxIter) hist)))"
      using 1(1)[OF True rng] 1(2,3) by simp
    finally show ?thesis using d n1 by (simp add: add.assoc)
  qed
qed

lemma total_loop_whole:
  "0 \<le> maxIter \<Longrightarrow> length hist = nat maxIter \<Longrightarrow> total_loop hist maxIter 0 0 = Inr (sum_list hist)"
  using total_loop_ok[of 0 maxIter hist 0] by simp

lemma hue_i_loop_ok:
  "0 \<le> i \<Longrightarrow> i \<le> v \<Longrightarrow> v \<le> int (length hist) \<Longrightarrow>
   hue_i_loop F hist tot v i h =
     Inr (foldl (\<lambda>h i. fadd F h (hue_term F hist tot i)) h [nat i..<nat v])"
proof (induction F hist tot v i h rule: hue_i_loop.induct)
  case (1 F hist tot v i h)
  show ?case
  proof (cases "i < v")
    case False
    with 1(2,3) show ?thesis by (subst hue_i_loop.simps) simp
  next
    case True
    have rng: "0 \<le> i \<and> i < int (length hist)" using True 1(2,4) by simp
    have u: "[nat i..<nat v] = nat i # [nat (i + 1)..<nat v]"
    proof -
      have "nat i < nat v" using True 1(2) by simp
      moreover have "nat (i + 1) = Suc (nat i)" using 1(2) by linarith
      ultimately show ?thesis by (simp add: upt_conv_Cons)
    qed
    have "hue_i_loop F hist tot v i h =
          hue_i_loop F hist tot v (i + 1)
            (fadd F h (fdiv F (f_of_int F (uint (hist ! nat i))) (f_of_int F (uint tot))))"
      using True rng by (subst hue_i_loop.simps) simp
    also have "\<dots> = Inr (foldl (\<lambda>h i. fadd F h (hue_term F hist tot i))
                         (fadd F h (fdiv F (f_of_int F (uint (hist ! nat i))) (f_of_int F (uint tot))))
                         [nat (i + 1)..<nat v])"
      using 1(1)[OF True rng] 1(2,4) True by simp
    finally show ?thesis using u by (simp add: hue_term_def)
  qed
qed

lemma hue_i_loop_whole:
  "uint v \<le> int (length hist) \<Longrightarrow> hue_i_loop F hist tot (uint v) 0 h = Inr (hue_from F hist tot v h)"
  using hue_i_loop_ok[of 0 "uint v" hist F tot h] by (simp add: hue_from_def)

section \<open>A view whose pixels are all in the set\<close>

lemma nan_absorbs: "i_add h NaN = NaN"
  by (cases h) simp_all

lemma fold_nan:
  "(\<forall>i \<in> set is. t i = NaN) \<Longrightarrow> is \<noteq> [] \<Longrightarrow> foldl (\<lambda>h i. i_add h (t i)) h is = NaN"
proof (induction "is" arbitrary: h rule: rev_induct)
  case Nil
  then show ?case by simp
next
  case (snoc a "is")
  then show ?case by (simp add: nan_absorbs)
qed

lemma hue_from_empty_histogram:
  assumes "0 < unat v" and "unat v \<le> n"
  shows "hue_from ideal (replicate n 0) 0 v h = NaN"
proof -
  have "\<forall>i \<in> set [0..<unat v]. hue_term ideal (replicate n 0) 0 i = NaN"
    using assms by (simp add: hue_term_def)
  moreover have "[0..<unat v] \<noteq> []" using assms by simp
  ultimately show ?thesis
    unfolding hue_from_def by (simp add: fold_nan)
qed


lemma single_step:
  assumes "pointInSet F p N = N"
  shows "goroutine_step F N [(0, 0, p)] ([Spawned], [[b]], hist) k =
           (if k = 0 then ([Finished], [[word_of_int N]], hist) else ([Spawned], [[b]], hist))"
  using assms by (simp add: goroutine_step_def Let_def)

lemma single_step_finished:
  "goroutine_step F N [(0, 0, p)] ([Finished], buf, hist) k = ([Finished], buf, hist)"
  by (simp add: goroutine_step_def)

lemma single_run_finished:
  "run_schedule F N [(0, 0, p)] sched ([Finished], buf, hist) = ([Finished], buf, hist)"
  by (induction sched) (simp_all add: run_schedule_def single_step_finished)

lemma single_run:
  assumes "pointInSet F p N = N"
  shows "run_schedule F N [(0, 0, p)] sched ([Spawned], [[b]], hist) = ([Spawned], [[b]], hist)
       \<or> run_schedule F N [(0, 0, p)] sched ([Spawned], [[b]], hist) = ([Finished], [[word_of_int N]], hist)"
proof (induction sched)
  case Nil
  then show ?case by (simp add: run_schedule_def)
next
  case (Cons k sched)
  have "run_schedule F N [(0, 0, p)] (k # sched) ([Spawned], [[b]], hist) =
        run_schedule F N [(0, 0, p)] sched (goroutine_step F N [(0, 0, p)] ([Spawned], [[b]], hist) k)"
    by (simp add: run_schedule_def)
  with Cons show ?case
    by (cases "k = 0") (simp_all add: single_step[OF assms] single_run_finished)
qed

lemma single_run_to_end:
  assumes "pointInSet F p N = N"
  shows "run_to_end F N [(0, 0, p)] (run_schedule F N [(0, 0, p)] sched ([Spawned], [[b]], hist)) =
           ([Finished], [[word_of_int N]], hist)"
proof -
  have a: "run_to_end F N [(0, 0, p)] ([Spawned], [[b]], hist) = ([Finished], [[word_of_int N]], hist)"
    by (simp add: run_to_end_def run_schedule_def single_step[OF assms] single_step_finished)
  have b: "run_to_end F N [(0, 0, p)] ([Finished], [[word_of_int N]], hist) =
           ([Finished], [[word_of_int N]], hist)"
    by (simp add: run_to_end_def single_run_finished)
  from single_run[OF assms, of sched b hist] a b show ?thesis by auto
qed

lemma sum_list_zeros: "sum_list (replicate n (0::uint32)) = 0"
  by (induction n) simp_all

lemma alloc_small:
  "alloc_columns ideal t 1 1 z 0 [[]] = Inr [[z]]"
  "alloc_columns ideal t 2 1 z 0 [[], []] = Inr [[z], [z]]"
  by (cases t; simp add: alloc_columns.simps make_slice_def i_make_def)+

lemma makes_ideal_small: "0 \<le> n \<Longrightarrow> n < 2 ^ 32 \<Longrightarrow> makes ideal t n"
  by (cases t; intro makes_ideal; simp)

lemma Create_1x1_at_2_2:
  "Create ideal 1 1 (Fin 2, Fin 2) =
     Inr \<lparr>ImageWidth = 1, ImageHeight = 1, center = (Fin 2, Fin 2), zoomLevel = Fin (1/2),
          maxIterations = 1000, buffer = [[0]], minX = Fin 0, minY = Fin 0, maxX = Fin 4,
          maxY = Fin 4, histogram = replicate 1000 0, hue = []\<rparr>"
  by (simp add: Create_ok makes_ideal_small SetZoom_def new_Mandelbrot_def Let_def i_sub_def of_rat_divide)

lemma origin_in_set: "pointInSet ideal (Fin 0, Fin 0) N = N"
proof -
  have "pointInCardioid ideal (Fin 0) (Fin 0)" by (simp add: ideal_eval)
  then show ?thesis by (simp add: pointInSet_def)
qed

lemma all_in_set_view:
  assumes "0 < N" and "N < 2 ^ 32"
    and "ImageWidth m = 1" and "ImageHeight m = 1" and "maxIterations m = N"
    and "buffer m = [[b]]" and "minX m = Fin 0" and "minY m = Fin 0"
    and "maxX m = Fin 4" and "maxY m = Fin 4"
  shows "Generate ideal sched m =
           Inr (m\<lparr>buffer := [[word_of_int N]], histogram := replicate (nat N) 0, hue := [[NaN]]\<rparr>)"
proof -
  note sel = assms(3-10)
  let ?m1 = "m\<lparr>histogram := replicate (nat N) 0, hue := [[Fin 0]]\<rparr>"
  let ?m2 = "?m1\<lparr>buffer := [[word_of_int N]]\<rparr>"
  have a: "Generate_alloc ideal m = Inr ?m1"
    using assms(1,2) by (simp add: sel Generate_alloc_def make_slice_ok makes_ideal_small alloc_small)
  have tasks: "pixel_tasks ideal ?m1 = [(0, 0, (Fin 0, Fin 0))]"
    by (simp add: sel pixel_tasks_def pixel_point_def i_map_def i_sub_def i_add_zero)
  have p: "Generate_pixels ideal sched ?m1 = Inr ?m2"
    unfolding Generate_pixels_def tasks Let_def
    by (simp add: sel single_run_to_end[OF origin_in_set])
  have uN: "uint (word_of_int N :: uint32) = N"
    using assms by (simp add: uint_word_of_int take_bit_int_eq_self)
  have t: "total_loop (replicate (nat N) 0) N 0 0 = Inr 0"
    using assms(1) by (simp add: total_loop_whole sum_list_zeros)
  have i: "hue_i_loop ideal (replicate (nat N) 0) 0 N 0 (Fin 0) = Inr NaN"
  proof -
    have "hue_i_loop ideal (replicate (nat N) 0) 0 (uint (word_of_int N :: uint32)) 0 (Fin 0) =
          Inr (hue_from ideal (replicate (nat N) 0) 0 (word_of_int N) (Fin 0))"
      using assms(1) by (intro hue_i_loop_whole) (simp add: uN)
    moreover have "hue_from ideal (replicate (nat N) 0) 0 (word_of_int N :: uint32) (Fin 0) = NaN"
      using assms uN by (intro hue_from_empty_histogram) (simp_all add: unat_eq_nat_uint)
    ultimately show ?thesis by (simp add: uN)
  qed
  have y: "hue_y_loop ideal ?m2 0 0 0 [[Fin 0]] = Inr [[NaN]]"
    using assms(1) by (simp add: hue_y_loop.simps sel in_grid_def uN i)
  have x: "hue_x_loop ideal ?m2 0 0 [[Fin 0]] = Inr [[NaN]]"
    by (subst hue_x_loop.simps, simp add: sel y, subst hue_x_loop.simps, simp add: sel)
  have h: "Generate_hue ideal ?m2 = Inr (?m2\<lparr>hue := [[NaN]]\<rparr>)"
    using x t by (simp add: Generate_hue_def sel)
  show ?thesis
    by (simp add: Generate_def a p h)
qed


section \<open>A view with two pixels outside the set\<close>

lemma sqrt_more:
  "sqrt (961 / 16) = 31 / 4" "sqrt (1521 / 16) = 39 / 4" "sqrt 64 = 8" "sqrt 100 = 10"
  by (rule real_sqrt_unique; simp add: power2_eq_square)+

lemma far_8: "pointInSet ideal (Fin 8, Fin 0) N = (if 0 < N then 0 else N)"
proof (cases "0 < N")
  case True
  then have "pointInSet ideal (Fin 8, Fin 0) N = 0"
    by (intro pointInSet_ideal_far) (simp_all add: ideal_eval sqrt_more)
  with True show ?thesis by simp
next
  case False
  then show ?thesis by (simp add: pointInSet_nonpositive)
qed

lemma far_10: "pointInSet ideal (Fin 10, Fin 0) N = (if 0 < N then 0 else N)"
proof (cases "0 < N")
  case True
  then have "pointInSet ideal (Fin 10, Fin 0) N = 0"
    by (intro pointInSet_ideal_far) (simp_all add: ideal_eval sqrt_more)
  with True show ?thesis by simp
next
  case False
  then show ?thesis by (simp add: pointInSet_nonpositive)
qed

lemma Create_2x1_at_10_1:
  "Create ideal 2 1 (Fin 10, Fin 1) =
     Inr \<lparr>ImageWidth = 2, ImageHeight = 1, center = (Fin 10, Fin 1), zoomLevel = Fin (1/2),
          maxIterations = 1000, buffer = [[0], [0]], minX = Fin 8, minY = Fin 0, maxX = Fin 12,
          maxY = Fin 2, histogram = replicate 1000 0, hue = []\<rparr>"
  by (simp add: Create_ok makes_ideal_small SetZoom_def new_Mandelbrot_def Let_def i_sub_def of_rat_divide
      numeral_2_eq_2)

text \<open>
  Both goroutines compute the count 0 and go for slot 0 of the histogram. Run one after
  the other they leave 2 in it. When both read the slot before either writes it, each
  writes 1.
\<close>

lemma two_pool:
  assumes "0 < N" and "0 < n"
    and "tasks = [(0, 0, (Fin 8, Fin 0)), (1, 0, (Fin 10, Fin 0))]"
  shows "run_to_end ideal N tasks
           (run_schedule ideal N tasks [] ([Spawned, Spawned], [[b0], [b1]], replicate n 0)) =
         ([Finished, Finished], [[0], [0]], (replicate n 0)[0 := 2])"
    and "run_to_end ideal N tasks
           (run_schedule ideal N tasks [0, 1, 0, 1, 0, 1]
              ([Spawned, Spawned], [[b0], [b1]], replicate n 0)) =
         ([Finished, Finished], [[0], [0]], (replicate n 0)[0 := 1])"
    and "run_to_end ideal N tasks
           (run_schedule ideal N tasks [0, 1, 1, 0, 0, 1]
              ([Spawned, Spawned], [[b0], [b1]], replicate n 0)) =
         ([Finished, Finished], [[0], [0]], (replicate n 0)[0 := 1])"
  using assms
  by (simp_all add: run_to_end_def run_schedule_def goroutine_step_def far_8 far_10 Let_def)


lemma upto_0_1: "[0..1::int] = [0, 1]"
  by (simp add: upto.simps)

lemma hue_pass_zero_counts:
  assumes "ImageWidth m = 2" and "ImageHeight m = 1" and "buffer m = [[0], [0]]"
  shows "hue_x_loop F m tot 0 [[h0], [h1]] = Inr [[h0], [h1]]"
  by (simp add: hue_x_loop.simps hue_y_loop.simps assms in_grid_def hue_i_loop_zero)

lemma two_pixel_view:
  assumes "0 < N \<and> N < 2 ^ 32"
    and "ImageWidth m = 2" and "ImageHeight m = 1" and "maxIterations m = N"
    and "buffer m = [[b0], [b1]]" and "minX m = Fin 8" and "minY m = Fin 0"
    and "maxX m = Fin 12" and "maxY m = Fin 2"
    and pool: "run_to_end ideal N [(0, 0, (Fin 8, Fin 0)), (1, 0, (Fin 10, Fin 0))]
           (run_schedule ideal N [(0, 0, (Fin 8, Fin 0)), (1, 0, (Fin 10, Fin 0))] sched
              ([Spawned, Spawned], [[b0], [b1]], replicate (nat N) 0)) =
         ([Finished, Finished], [[0], [0]], hist)"
    and len: "length hist = nat N"
  shows "Generate ideal sched m =
           Inr (m\<lparr>buffer := [[0], [0]], histogram := hist, hue := [[Fin 0], [Fin 0]]\<rparr>)"
proof -
  note sel = assms(2-9)
  let ?m1 = "m\<lparr>histogram := replicate (nat N) 0, hue := [[Fin 0], [Fin 0]]\<rparr>"
  let ?m2 = "?m1\<lparr>buffer := [[0], [0]], histogram := hist\<rparr>"
  have a: "Generate_alloc ideal m = Inr ?m1"
    using assms(1) by (simp add: sel Generate_alloc_def make_slice_ok makes_ideal_small alloc_small numeral_2_eq_2)
  have tasks: "pixel_tasks ideal ?m1 = [(0, 0, (Fin 8, Fin 0)), (1, 0, (Fin 10, Fin 0))]"
    by (simp add: sel pixel_tasks_def pixel_point_def i_map_def i_sub_def upto_0_1)
  have p: "Generate_pixels ideal sched ?m1 = Inr ?m2"
    unfolding Generate_pixels_def tasks Let_def
    using pool by (simp add: sel numeral_2_eq_2)
  have t: "total_loop hist N 0 0 = Inr (sum_list hist)"
    using assms(1) len by (simp add: total_loop_whole)
  have x: "hue_x_loop ideal ?m2 tot 0 [[Fin 0], [Fin 0]] = Inr [[Fin 0], [Fin 0]]" for tot
    by (rule hue_pass_zero_counts) (simp_all add: sel)
  have h: "Generate_hue ideal ?m2 = Inr ?m2"
    using x t by (simp add: Generate_hue_def sel)
  have "Generate ideal sched m = Inr ?m2"
    by (simp only: Generate_def a p h sum.case)
  then show ?thesis by simp
qed

section \<open>No goroutine panics on a well-formed view\<close>

lemma stored_update:
  assumes "is_grid buf (ImageWidth m) (ImageHeight m)"
    and "task_ok F m (x, y, p)" and "task_ok F m t"
    and "stored F m buf t \<or> t = (x, y, p)"
  shows "stored F m (buf[nat x := (buf ! nat x)[nat y := word_of_int (pointInSet F p (maxIterations m))]]) t"
proof -
  obtain x' y' p' where t: "t = (x', y', p')" by (cases t) auto
  have r: "nat x < nat (ImageWidth m)" "nat y < nat (ImageHeight m)"
          "nat x' < nat (ImageWidth m)" "nat y' < nat (ImageHeight m)"
    using assms(2,3) by (auto simp: task_ok_def t)
  have cell: "buf[nat x := (buf ! nat x)[nat y := word_of_int (pointInSet F p (maxIterations m))]] ! nat x' ! nat y' =
        (if nat x' = nat x \<and> nat y' = nat y then word_of_int (pointInSet F p (maxIterations m))
         else buf ! nat x' ! nat y')"
    using assms(1) r by (rule grid_update_nth)
  show ?thesis
  proof (cases "nat x' = nat x \<and> nat y' = nat y")
    case True
    then have "x' = x" "y' = y" using assms(2,3) by (auto simp: task_ok_def t)
    then have "p' = p" using assms(2,3) by (simp add: task_ok_def t)
    with True cell show ?thesis by (simp add: stored_def t)
  next
    case False
    then have "t \<noteq> (x, y, p)" by (auto simp: t)
    with assms(4) have "stored F m buf t" by simp
    with False cell show ?thesis by (auto simp: stored_def t)
  qed
qed

lemma goroutine_ok_update:
  assumes "is_grid buf (ImageWidth m) (ImageHeight m)"
    and "task_ok F m (x, y, p)" and "task_ok F m t" and "goroutine_ok F m buf t g"
  shows "goroutine_ok F m
           (buf[nat x := (buf ! nat x)[nat y := word_of_int (pointInSet F p (maxIterations m))]]) t g"
  using assms by (cases g) (auto intro: stored_update)

lemma pool_inv_step:
  assumes inv: "pool_inv F m tasks st"
    and tasks: "\<forall>t \<in> set tasks. task_ok F m t"
    and N: "0 \<le> maxIterations m"
  shows "pool_inv F m tasks (goroutine_step F (maxIterations m) tasks st k)"
proof -
  obtain gs buf hist where st: "st = (gs, buf, hist)" by (cases st) auto
  from inv have len: "length gs = length tasks"
    and grid: "is_grid buf (ImageWidth m) (ImageHeight m)"
    and hl: "length hist = nat (maxIterations m)"
    and ok: "\<And>j. j < length tasks \<Longrightarrow> goroutine_ok F m buf (tasks ! j) (gs ! j)"
    by (auto simp: pool_inv_def st)
  have tk: "\<And>j. j < length tasks \<Longrightarrow> task_ok F m (tasks ! j)"
    using tasks by simp
  show ?thesis
  proof (cases "k < length gs \<and> k < length tasks")
    case False
    then show ?thesis using inv by (auto simp: goroutine_step_def st)
  next
    case True
    then have k: "k < length tasks" "k < length gs" by auto
    obtain x y p where t: "tasks ! k = (x, y, p)" by (cases "tasks ! k") auto
    have tok: "task_ok F m (x, y, p)" using tk[OF k(1)] t by simp
    show ?thesis
    proof (cases "gs ! k")
      case Spawned
      let ?it = "pointInSet F p (maxIterations m)"
      let ?buf = "buf[nat x := (buf ! nat x)[nat y := word_of_int ?it]]"
      let ?g = "if ?it \<noteq> maxIterations m then Loading ?it else Finished"
      have rng: "0 \<le> x \<and> x < int (length buf) \<and> 0 \<le> y \<and> y < int (length (buf ! nat x))"
        using tok grid by (auto simp: task_ok_def is_grid_def)
      have step: "goroutine_step F (maxIterations m) tasks st k = (gs[k := ?g], ?buf, hist)"
        using True Spawned t rng by (simp add: goroutine_step_def st Let_def)
      have grid': "is_grid ?buf (ImageWidth m) (ImageHeight m)"
        using grid tok by (intro is_grid_update) (auto simp: task_ok_def)
      have itr: "0 \<le> ?it \<and> ?it \<le> maxIterations m"
        using N by (rule pointInSet_range)
      have own: "stored F m ?buf (x, y, p)"
        using grid tok tok by (rule stored_update) simp
      have "goroutine_ok F m ?buf (tasks ! j) (gs[k := ?g] ! j)" if j: "j < length tasks" for j
      proof (cases "j = k")
        case True
        with k t own itr show ?thesis by auto
      next
        case False
        with k have "gs[k := ?g] ! j = gs ! j" by simp
        with goroutine_ok_update[OF grid tok tk[OF j] ok[OF j]] show ?thesis by simp
      qed
      with len grid' hl show ?thesis
        by (simp add: pool_inv_def step)
    next
      case (Loading it)
      have itr: "0 \<le> it \<and> it < maxIterations m" and sto: "stored F m buf (x, y, p)"
        using ok[OF k(1)] Loading t by auto
      have step: "goroutine_step F (maxIterations m) tasks st k =
                    (gs[k := Storing it (hist ! nat it)], buf, hist)"
        using True Loading itr hl by (simp add: goroutine_step_def st)
      have "goroutine_ok F m buf (tasks ! j) (gs[k := Storing it (hist ! nat it)] ! j)"
        if j: "j < length tasks" for j
        using ok[OF j] k t itr sto by (cases "j = k") auto
      with len grid hl show ?thesis
        by (simp add: pool_inv_def step)
    next
      case (Storing it old)
      have sto: "stored F m buf (x, y, p)"
        using ok[OF k(1)] Storing t by auto
      have step: "goroutine_step F (maxIterations m) tasks st k =
                    (gs[k := Finished], buf, hist[nat it := old + 1])"
        using True Storing by (simp add: goroutine_step_def st)
      have "goroutine_ok F m buf (tasks ! j) (gs[k := Finished] ! j)"
        if j: "j < length tasks" for j
        using ok[OF j] k t sto by (cases "j = k") auto
      with len grid hl show ?thesis
        by (simp add: pool_inv_def step)
    next
      case Finished
      with True inv show ?thesis by (simp add: goroutine_step_def st)
    next
      case Panicked
      with True inv show ?thesis by (simp add: goroutine_step_def st)
    qed
  qed
qed

lemma pool_inv_run:
  assumes "pool_inv F m tasks st" and "\<forall>t \<in> set tasks. task_ok F m t" and "0 \<le> maxIterations m"
  shows "pool_inv F m tasks (run_schedule F (maxIterations m) tasks sched st)"
  using assms(1)
proof (induction sched arbitrary: st)
  case Nil
  then show ?case by (simp add: run_schedule_def)
next
  case (Cons k sched)
  have "pool_inv F m tasks (goroutine_step F (maxIterations m) tasks st k)"
    using Cons.prems assms(2,3) by (rule pool_inv_step)
  from Cons.IH[OF this] show ?case by (simp add: run_schedule_def)
qed


lemma step_others:
  "j \<noteq> k \<Longrightarrow> fst (goroutine_step F N tasks st k) ! j = fst st ! j"
  by (cases st) (auto simp: goroutine_step_def Let_def split: goroutine.splits prod.splits)

lemma step_progress:
  assumes inv: "pool_inv F m tasks st" and k: "k < length tasks"
  shows "steps_left (fst (goroutine_step F (maxIterations m) tasks st k) ! k) \<le> steps_left (fst st ! k) - 1"
proof -
  obtain gs buf hist where st: "st = (gs, buf, hist)" by (cases st) auto
  from inv have len: "length gs = length tasks"
    and hl: "length hist = nat (maxIterations m)"
    and ok: "goroutine_ok F m buf (tasks ! k) (gs ! k)"
    using k by (auto simp: pool_inv_def st)
  obtain x y p where t: "tasks ! k = (x, y, p)" by (cases "tasks ! k") auto
  show ?thesis
  proof (cases "gs ! k")
    case Spawned
    then show ?thesis
      using k len t by (auto simp: goroutine_step_def st Let_def)
  next
    case (Loading it)
    then show ?thesis
      using k len ok by (auto simp: goroutine_step_def st)
  next
    case (Storing it old)
    then show ?thesis
      using k len by (auto simp: goroutine_step_def st)
  next
    case Finished
    then show ?thesis
      using k len by (auto simp: goroutine_step_def st)
  next
    case Panicked
    then show ?thesis
      using k len by (auto simp: goroutine_step_def st)
  qed
qed

lemma three_steps_finish:
  assumes inv: "pool_inv F m tasks st" and tasks: "\<forall>t \<in> set tasks. task_ok F m t"
    and N: "0 \<le> maxIterations m" and k: "k < length tasks"
  shows "fst (run_schedule F (maxIterations m) tasks [k, k, k] st) ! k = Finished"
proof -
  let ?step = "\<lambda>s. goroutine_step F (maxIterations m) tasks s k"
  have i1: "pool_inv F m tasks (?step st)" using inv tasks N by (rule pool_inv_step)
  have i2: "pool_inv F m tasks (?step (?step st))" using i1 tasks N by (rule pool_inv_step)
  have i3: "pool_inv F m tasks (?step (?step (?step st)))" using i2 tasks N by (rule pool_inv_step)
  have "steps_left (fst st ! k) \<le> 3" by (cases "fst st ! k") simp_all
  moreover note step_progress[OF inv k] step_progress[OF i1 k] step_progress[OF i2 k]
  ultimately have z: "steps_left (fst (?step (?step (?step st))) ! k) = 0" by linarith
  obtain gs buf hist where s3: "?step (?step (?step st)) = (gs, buf, hist)"
    by (cases "?step (?step (?step st))") auto
  have "goroutine_ok F m buf (tasks ! k) (gs ! k)"
    using i3 k by (simp add: pool_inv_def s3)
  with z have "gs ! k = Finished"
    by (cases "gs ! k") (simp_all add: s3)
  then show ?thesis by (simp add: run_schedule_def s3)
qed

lemma finished_stays:
  "fst st ! j = Finished \<Longrightarrow> fst (goroutine_step F N tasks st k) ! j = Finished"
proof (cases "j = k")
  case False
  assume "fst st ! j = Finished"
  with False show ?thesis by (simp add: step_others)
next
  case True
  assume "fst st ! j = Finished"
  with True show ?thesis
    by (cases st) (auto simp: goroutine_step_def)
qed

lemma finished_stays_run:
  "fst st ! j = Finished \<Longrightarrow> fst (run_schedule F N tasks sched st) ! j = Finished"
proof (induction sched arbitrary: st)
  case Nil
  then show ?case by (simp add: run_schedule_def)
next
  case (Cons k sched)
  from Cons.IH[OF finished_stays[OF Cons.prems]] show ?case by (simp add: run_schedule_def)
qed

lemma run_schedule_append:
  "run_schedule F N tasks (s1 @ s2) st = run_schedule F N tasks s2 (run_schedule F N tasks s1 st)"
  by (simp add: run_schedule_def)

lemma blocks_finish:
  assumes inv: "pool_inv F m tasks st" and tasks: "\<forall>t \<in> set tasks. task_ok F m t"
    and N: "0 \<le> maxIterations m"
  shows "n \<le> length tasks \<Longrightarrow>
         (\<forall>k < n. fst (run_schedule F (maxIterations m) tasks
                          (concat (map (\<lambda>k. [k, k, k]) [0..<n])) st) ! k = Finished)"
proof (induction n)
  case 0
  then show ?case by simp
next
  case (Suc n)
  let ?s = "run_schedule F (maxIterations m) tasks (concat (map (\<lambda>k. [k, k, k]) [0..<n])) st"
  have split: "run_schedule F (maxIterations m) tasks (concat (map (\<lambda>k. [k, k, k]) [0..<Suc n])) st =
               run_schedule F (maxIterations m) tasks [n, n, n] ?s"
    by (simp add: run_schedule_append [symmetric])
  have invs: "pool_inv F m tasks ?s" using inv tasks N by (rule pool_inv_run)
  have last: "fst (run_schedule F (maxIterations m) tasks [n, n, n] ?s) ! n = Finished"
    using invs tasks N Suc.prems by (intro three_steps_finish) simp_all
  have before: "\<forall>k < n. fst ?s ! k = Finished" using Suc by simp
  show ?case
  proof (intro allI impI)
    fix k assume "k < Suc n"
    then consider "k < n" | "k = n" by linarith
    then show "fst (run_schedule F (maxIterations m) tasks
                      (concat (map (\<lambda>k. [k, k, k]) [0..<Suc n])) st) ! k = Finished"
    proof cases
      case 1
      with before have "fst ?s ! k = Finished" by simp
      then show ?thesis unfolding split by (rule finished_stays_run)
    next
      case 2
      with last show ?thesis unfolding split by simp
    qed
  qed
qed

lemma run_to_end_finished:
  assumes "pool_inv F m tasks st" and "\<forall>t \<in> set tasks. task_ok F m t" and "0 \<le> maxIterations m"
  shows "pool_inv F m tasks (run_to_end F (maxIterations m) tasks st)"
    and "\<forall>k < length tasks. fst (run_to_end F (maxIterations m) tasks st) ! k = Finished"
  unfolding run_to_end_def
  using assms by (auto intro: pool_inv_run blocks_finish[rule_format])


lemma pixel_tasks_ok: "\<forall>t \<in> set (pixel_tasks F m). task_ok F m t"
  by (auto simp: pixel_tasks_def task_ok_def)

lemma pixel_tasks_cover:
  assumes "0 \<le> x" and "x < ImageWidth m" and "0 \<le> y" and "y < ImageHeight m"
  shows "\<exists>k < length (pixel_tasks F m). pixel_tasks F m ! k = (x, y, pixel_point F m x y)"
proof -
  have "x \<in> {0..ImageWidth m - 1}" and "y \<in> {0..ImageHeight m - 1}"
    using assms by auto
  then have "(x, y, pixel_point F m x y) \<in> set (pixel_tasks F m)"
    unfolding pixel_tasks_def by (simp add: image_iff)
  then show ?thesis by (auto simp: in_set_conv_nth)
qed

lemma Generate_pixels_ok:
  assumes grid: "is_grid (buffer m) (ImageWidth m) (ImageHeight m)"
    and hl: "length (histogram m) = nat (maxIterations m)" and N: "0 \<le> maxIterations m"
  shows "\<exists>buf hist. Generate_pixels F sched m = Inr (m\<lparr>buffer := buf, histogram := hist\<rparr>)
           \<and> is_grid buf (ImageWidth m) (ImageHeight m)
           \<and> length hist = nat (maxIterations m)
           \<and> (\<forall>x y. 0 \<le> x \<and> x < ImageWidth m \<and> 0 \<le> y \<and> y < ImageHeight m \<longrightarrow>
                 buf ! nat x ! nat y =
                   word_of_int (pointInSet F (pixel_point F m x y) (maxIterations m)))"
proof -
  let ?tasks = "pixel_tasks F m"
  let ?init = "(replicate (length ?tasks) Spawned, buffer m, histogram m)"
  let ?mid = "run_schedule F (maxIterations m) ?tasks sched ?init"
  let ?fin = "run_to_end F (maxIterations m) ?tasks ?mid"
  have i0: "pool_inv F m ?tasks ?init"
    using grid hl by (simp add: pool_inv_def)
  have i1: "pool_inv F m ?tasks ?mid"
    using i0 pixel_tasks_ok N by (rule pool_inv_run)
  have i2: "pool_inv F m ?tasks ?fin"
    and fin: "\<forall>k < length ?tasks. fst ?fin ! k = Finished"
    using run_to_end_finished[OF i1 pixel_tasks_ok N] by auto
  obtain gs buf hist where f: "?fin = (gs, buf, hist)" by (cases ?fin) auto
  have len: "length gs = length ?tasks" and g: "is_grid buf (ImageWidth m) (ImageHeight m)"
    and h: "length hist = nat (maxIterations m)"
    and ok: "\<And>k. k < length ?tasks \<Longrightarrow> goroutine_ok F m buf (?tasks ! k) (gs ! k)"
    using i2 by (auto simp: pool_inv_def f)
  have allfin: "\<And>k. k < length ?tasks \<Longrightarrow> gs ! k = Finished"
    using fin by (simp add: f)
  have "Panicked \<notin> set gs"
  proof
    assume "Panicked \<in> set gs"
    then obtain k where "k < length gs" "gs ! k = Panicked" by (auto simp: in_set_conv_nth)
    with allfin len show False by simp
  qed
  then have res: "Generate_pixels F sched m = Inr (m\<lparr>buffer := buf, histogram := hist\<rparr>)"
    by (simp add: Generate_pixels_def Let_def f)
  have cells: "buf ! nat x ! nat y = word_of_int (pointInSet F (pixel_point F m x y) (maxIterations m))"
    if "0 \<le> x \<and> x < ImageWidth m \<and> 0 \<le> y \<and> y < ImageHeight m" for x y
  proof -
    from that have "0 \<le> x" "x < ImageWidth m" "0 \<le> y" "y < ImageHeight m" by auto
    from pixel_tasks_cover[OF this, of F]
    obtain k where k: "k < length ?tasks" "?tasks ! k = (x, y, pixel_point F m x y)"
      by blast
    from ok[OF k(1)] allfin[OF k(1)] k(2) show ?thesis by (simp add: stored_def)
  qed
  from res g h cells show ?thesis by blast
qed

lemma hue_y_loop_ok:
  assumes "0 \<le> y" and "0 \<le> x" and "x < ImageWidth m"
    and "is_grid hu (ImageWidth m) (ImageHeight m)"
    and "is_grid (buffer m) (ImageWidth m) (ImageHeight m)"
    and "\<forall>x' y'. x' < nat (ImageWidth m) \<longrightarrow> y' < nat (ImageHeight m) \<longrightarrow>
           uint (buffer m ! x' ! y') \<le> int (length (histogram m))"
  shows "\<exists>hu'. hue_y_loop F m tot x y hu = Inr hu'"
  using assms
proof (induction F m tot x y hu rule: hue_y_loop.induct)
  case (1 F m tot x y hu)
  show ?case
  proof (cases "y < ImageHeight m")
    case False
    then show ?thesis by (subst hue_y_loop.simps) simp
  next
    case True
    let ?v = "buffer m ! nat x ! nat y"
    have xr: "nat x < nat (ImageWidth m)" and yr: "nat y < nat (ImageHeight m)"
      using True 1(2,3,4) by auto
    have ing: "in_grid (buffer m) x y" and inh: "in_grid hu x y"
      using 1(5,6) xr yr 1(2,3) by (auto simp: in_grid_def is_grid_def)
    have vle: "uint ?v \<le> int (length (histogram m))" using 1(7) xr yr by simp
    let ?h = "hue_from F (histogram m) tot ?v (hu ! nat x ! nat y)"
    have h: "hue_i_loop F (histogram m) tot (uint ?v) 0 (hu ! nat x ! nat y) = Inr ?h"
      using vle by (rule hue_i_loop_whole)
    let ?hu2 = "if 0 < uint ?v then hu[nat x := (hu ! nat x)[nat y := ?h]] else hu"
    have g2: "is_grid ?hu2 (ImageWidth m) (ImageHeight m)"
      using 1(5) xr by (simp add: is_grid_update)
    have no: "\<not> (0 < uint ?v \<and> \<not> in_grid hu x y)" using inh by simp
    have y1: "0 \<le> y + 1" using 1(2) by simp
    have "\<exists>hu'. hue_y_loop F m tot x (y + 1) ?hu2 = Inr hu'"
      by (rule 1(1)[OF True ing refl no h y1 1(3) 1(4) g2 1(6) 1(7)])
    then show ?thesis
      using True ing inh h by (subst hue_y_loop.simps) (simp add: Let_def)
  qed
qed

lemma hue_x_loop_ok:
  assumes "0 \<le> x"
    and "is_grid hu (ImageWidth m) (ImageHeight m)"
    and "is_grid (buffer m) (ImageWidth m) (ImageHeight m)"
    and "\<forall>x' y'. x' < nat (ImageWidth m) \<longrightarrow> y' < nat (ImageHeight m) \<longrightarrow>
           uint (buffer m ! x' ! y') \<le> int (length (histogram m))"
  shows "\<exists>hu'. hue_x_loop F m tot x hu = Inr hu'"
  using assms
proof (induction F m tot x hu rule: hue_x_loop.induct)
  case (1 F m tot x hu)
  show ?case
  proof (cases "x < ImageWidth m")
    case False
    then show ?thesis by (subst hue_x_loop.simps) simp
  next
    case True
    obtain hu1 where col: "hue_y_loop F m tot x 0 hu = Inr hu1"
      using hue_y_loop_ok[OF _ 1(2) True 1(3) 1(4) 1(5), of 0 F tot] by auto
    have g1: "is_grid hu1 (ImageWidth m) (ImageHeight m)"
      using hue_y_loop_cells[OF col _ 1(2) True 1(3)] by simp
    have x1: "0 \<le> x + 1" using 1(2) by simp
    have "\<exists>hu'. hue_x_loop F m tot (x + 1) hu1 = Inr hu'"
      by (rule 1(1)[OF True col x1 g1 1(4) 1(5)])
    then show ?thesis
      using True col by (subst hue_x_loop.simps) simp
  qed
qed

lemma uint_stored_count:
  assumes "0 \<le> N"
  shows "uint (word_of_int (pointInSet F p N) :: uint32) \<le> N"
proof -
  have r: "0 \<le> pointInSet F p N \<and> pointInSet F p N \<le> N"
    using assms by (rule pointInSet_range)
  have "uint (word_of_int (pointInSet F p N) :: uint32) = take_bit 32 (pointInSet F p N)"
    by (simp add: uint_word_of_int_eq)
  also have "\<dots> \<le> pointInSet F p N"
    using r by (simp add: take_bit_int_less_eq_self_iff)
  finally show ?thesis using r by simp
qed

lemma Generate_alloc_ok:
  assumes "wf_view m" and "Generate_allocates F m"
  shows "Generate_alloc F m =
           Inr (m\<lparr>histogram := replicate (nat (maxIterations m)) 0,
                  hue := replicate (nat (ImageWidth m)) (replicate (nat (ImageHeight m)) (fconst F 0))\<rparr>)"
proof (cases "ImageWidth m = 0")
  case True
  with assms(2) show ?thesis
    by (simp add: Generate_alloc_def Generate_allocates_def make_slice_ok alloc_columns_empty)
next
  case False
  moreover from assms(1) have "0 \<le> ImageWidth m" by (simp add: wf_view_def)
  ultimately show ?thesis
    using assms(2)
    by (simp add: Generate_alloc_def Generate_allocates_def make_slice_ok alloc_grid)
qed

lemma Generate_Inr_allocates:
  assumes "Generate F sched m = Inr m'"
  shows "Generate_allocates F m"
proof -
  from assms obtain m1 where "Generate_alloc F m = Inr m1"
    by (auto simp: Generate_def split: sum.splits)
  then show ?thesis by (rule Generate_alloc_hue(5))
qed

lemma Generate_ok:
  assumes "wf_view m" and al: "Generate_allocates F m"
  shows "\<exists>m'. Generate F sched m = Inr m' \<and> wf_view m'
           \<and> ImageWidth m' = ImageWidth m \<and> ImageHeight m' = ImageHeight m
           \<and> maxIterations m' = maxIterations m
           \<and> length (histogram m') = nat (maxIterations m)
           \<and> (\<forall>x y. 0 \<le> x \<and> x < ImageWidth m \<and> 0 \<le> y \<and> y < ImageHeight m \<longrightarrow>
                 buffer m' ! nat x ! nat y =
                   word_of_int (pointInSet F (pixel_point F m x y) (maxIterations m)))"
proof -
  let ?W = "ImageWidth m" and ?H = "ImageHeight m" and ?N = "maxIterations m"
  from assms have N: "0 \<le> ?N" and W: "0 \<le> ?W" and H: "0 \<le> ?H"
    and grid: "is_grid (buffer m) ?W ?H"
    by (auto simp: wf_view_def)
  let ?m1 = "m\<lparr>histogram := replicate (nat ?N) 0,
               hue := replicate (nat ?W) (replicate (nat ?H) (fconst F 0))\<rparr>"
  have a: "Generate_alloc F m = Inr ?m1"
    using assms by (rule Generate_alloc_ok)
  have pp: "pixel_point F ?m1 = pixel_point F m"
    by (intro ext) (simp add: pixel_point_def)
  obtain buf hist where p: "Generate_pixels F sched ?m1 = Inr (?m1\<lparr>buffer := buf, histogram := hist\<rparr>)"
    and g: "is_grid buf ?W ?H" and hl: "length hist = nat ?N"
    and cells: "\<And>x y. 0 \<le> x \<and> x < ?W \<and> 0 \<le> y \<and> y < ?H \<Longrightarrow>
                 buf ! nat x ! nat y = word_of_int (pointInSet F (pixel_point F m x y) ?N)"
    using Generate_pixels_ok[of ?m1 F sched] grid N by (auto simp: pp)
  let ?m2 = "?m1\<lparr>buffer := buf, histogram := hist\<rparr>"
  have t: "total_loop hist ?N 0 0 = Inr (sum_list hist)"
    using N hl by (rule total_loop_whole)
  have small: "\<forall>x' y'. x' < nat (ImageWidth ?m2) \<longrightarrow> y' < nat (ImageHeight ?m2) \<longrightarrow>
           uint (buffer ?m2 ! x' ! y') \<le> int (length (histogram ?m2))"
  proof (intro allI impI)
    fix x' y' assume b: "x' < nat (ImageWidth ?m2)" "y' < nat (ImageHeight ?m2)"
    then have "buf ! nat (int x') ! nat (int y') =
               word_of_int (pointInSet F (pixel_point F m (int x') (int y')) ?N)"
      by (intro cells) auto
    then have "uint (buf ! x' ! y') \<le> ?N"
      using uint_stored_count[OF N, of F "pixel_point F m (int x') (int y')"] by simp
    then show "uint (buffer ?m2 ! x' ! y') \<le> int (length (histogram ?m2))"
      using hl N by simp
  qed
  have hg: "is_grid (replicate (nat ?W) (replicate (nat ?H) (fconst F 0))) (ImageWidth ?m2) (ImageHeight ?m2)"
    by (simp add: is_grid_def)
  have bg: "is_grid (buffer ?m2) (ImageWidth ?m2) (ImageHeight ?m2)"
    using g by simp
  obtain hu where x: "hue_x_loop F ?m2 (sum_list hist) 0
                        (replicate (nat ?W) (replicate (nat ?H) (fconst F 0))) = Inr hu"
    using hue_x_loop_ok[OF _ hg bg small, of 0 F "sum_list hist"] by auto
  have h: "Generate_hue F ?m2 = Inr (?m2\<lparr>hue := hu\<rparr>)"
    using t x by (simp add: Generate_hue_def)
  have "Generate F sched m = Inr (?m2\<lparr>hue := hu\<rparr>)"
    by (simp only: Generate_def a p h sum.case)
  moreover have "wf_view (?m2\<lparr>hue := hu\<rparr>)"
    using N W H g by (simp add: wf_view_def)
  ultimately show ?thesis
    using hl cells by auto
qed


text \<open>\<^verbatim>\<open>Generate\<close> returns exactly when its allocations succeed.\<close>

lemma Generate_returns:
  assumes "wf_view m"
  shows "(\<exists>m'. Generate F sched m = Inr m') = Generate_allocates F m"
  using Generate_ok[OF assms, of F sched] Generate_Inr_allocates[of F sched m] by blast

lemma wf_view_Create:
  assumes "0 \<le> height" and "Create F width height c = Inr m"
  shows "wf_view m"
proof -
  from assms(2) have "\<exists>v. Create F width height c = Inr v" ..
  then have "0 \<le> width" by (auto simp: Create_returns dest: makes_nonneg)
  then show ?thesis
    using Create_fields[OF assms(2)] assms(1)
    by (simp add: wf_view_def is_grid_def GetMaxIterations_def GetBuffer_def)
qed

lemma wf_view_SetZoom: "wf_view m \<Longrightarrow> wf_view (SetZoom F m z)"
  by (simp add: wf_view_def SetZoom_def Let_def)

lemma wf_view_SetCenter: "wf_view m \<Longrightarrow> wf_view (SetCenter m c)"
  by (simp add: wf_view_def SetCenter_def)

lemma wf_view_SetMaxIterations:
  assumes "wf_view m" and "SetMaxIterations F m i = Inr m'"
  shows "wf_view m'"
proof -
  from assms(2) have mk: "makes F T_uint32 i" using SetMaxIterations_returns by blast
  with assms show ?thesis
    by (auto simp: wf_view_def SetMaxIterations_ok dest: makes_nonneg)
qed


text \<open>The buffer does not depend on the schedule: each cell has one writer.\<close>

lemma Generate_buffer_any_schedule:
  assumes "wf_view m" and "Generate F s1 m = Inr m1" and "Generate F s2 m = Inr m2"
    and "0 \<le> x" and "x < ImageWidth m" and "0 \<le> y" and "y < ImageHeight m"
  shows "buffer m1 ! nat x ! nat y = buffer m2 ! nat x ! nat y"
  using Generate_ok[OF assms(1) Generate_Inr_allocates[OF assms(2)], of s1]
    Generate_ok[OF assms(1) Generate_Inr_allocates[OF assms(2)], of s2] assms(2-)
  by auto

section \<open>Goroutines run one after the other count every pixel\<close>

lemma count_hist_snoc:
  assumes "0 \<le> it" and "it \<le> N"
  shows "count_hist (its @ [it]) N =
           (if it \<noteq> N then (count_hist its N)[nat it := count_hist its N ! nat it + 1]
            else count_hist its N)"
proof (cases "it = N")
  case True
  have "\<And>i. i < nat N \<Longrightarrow> N \<noteq> int i" by linarith
  with True show ?thesis by (simp add: count_hist_def)
next
  case False
  with assms have lt: "nat it < nat N" by linarith
  have "count_hist (its @ [it]) N ! i = (count_hist its N)[nat it := count_hist its N ! nat it + 1] ! i"
    if "i < nat N" for i
  proof (cases "i = nat it")
    case True
    with assms that show ?thesis by (simp add: count_hist_def)
  next
    case ne: False
    then have "it \<noteq> int i" using assms by linarith
    with that ne show ?thesis by (simp add: count_hist_def)
  qed
  then have "count_hist (its @ [it]) N = (count_hist its N)[nat it := count_hist its N ! nat it + 1]"
    by (intro nth_equalityI) (simp_all add: count_hist_def)
  with False show ?thesis by simp
qed

lemma count_hist_Nil: "count_hist [] N = replicate (nat N) 0"
  by (simp add: count_hist_def map_replicate_const)

lemma block_of_three:
  assumes k: "k < length tasks" and len: "length gs = length tasks"
    and sp: "gs ! k = Spawned" and t: "tasks ! k = (x, y, p)"
    and tok: "task_ok F m (x, y, p)"
    and grid: "is_grid buf (ImageWidth m) (ImageHeight m)"
    and hl: "length hist = nat (maxIterations m)" and N: "0 \<le> maxIterations m"
  shows "run_schedule F (maxIterations m) tasks [k, k, k] (gs, buf, hist) =
           (gs[k := Finished],
            buf[nat x := (buf ! nat x)[nat y := word_of_int (pointInSet F p (maxIterations m))]],
            (if pointInSet F p (maxIterations m) \<noteq> maxIterations m
             then hist[nat (pointInSet F p (maxIterations m)) :=
                         hist ! nat (pointInSet F p (maxIterations m)) + 1]
             else hist))"
proof -
  let ?N = "maxIterations m"
  let ?it = "pointInSet F p ?N"
  let ?buf = "buf[nat x := (buf ! nat x)[nat y := word_of_int ?it]]"
  have rng: "0 \<le> x \<and> x < int (length buf) \<and> 0 \<le> y \<and> y < int (length (buf ! nat x))"
    using tok grid by (auto simp: task_ok_def is_grid_def)
  have itr: "0 \<le> ?it \<and> ?it \<le> ?N" using N by (rule pointInSet_range)
  have s1: "goroutine_step F ?N tasks (gs, buf, hist) k =
              (gs[k := (if ?it \<noteq> ?N then Loading ?it else Finished)], ?buf, hist)"
    using k len sp t rng by (simp add: goroutine_step_def Let_def)
  show ?thesis
  proof (cases "?it = ?N")
    case True
    then show ?thesis
      using k len by (simp add: run_schedule_def s1) (simp add: goroutine_step_def)
  next
    case False
    with itr hl have hr: "0 \<le> ?it \<and> ?it < int (length hist)" by linarith
    have s2: "goroutine_step F ?N tasks (gs[k := Loading ?it], ?buf, hist) k =
                (gs[k := Storing ?it (hist ! nat ?it)], ?buf, hist)"
      using k len hr by (simp add: goroutine_step_def)
    have s3: "goroutine_step F ?N tasks (gs[k := Storing ?it (hist ! nat ?it)], ?buf, hist) k =
                (gs[k := Finished], ?buf, hist[nat ?it := hist ! nat ?it + 1])"
      using k len by (simp add: goroutine_step_def)
    show ?thesis
      using False by (simp add: run_schedule_def s1 s2 s3)
  qed
qed

lemma sequential_blocks:
  assumes tasks: "\<forall>t \<in> set tasks. task_ok F m t" and N: "0 \<le> maxIterations m"
    and grid: "is_grid buf0 (ImageWidth m) (ImageHeight m)"
  shows "n \<le> length tasks \<Longrightarrow>
         \<exists>buf. run_schedule F (maxIterations m) tasks (concat (map (\<lambda>k. [k, k, k]) [0..<n]))
                  (replicate (length tasks) Spawned, buf0, replicate (nat (maxIterations m)) 0) =
                (replicate n Finished @ replicate (length tasks - n) Spawned, buf,
                 count_hist (map (\<lambda>t. case t of (x, y, p) \<Rightarrow> pointInSet F p (maxIterations m))
                                 (take n tasks)) (maxIterations m))
              \<and> is_grid buf (ImageWidth m) (ImageHeight m)"
proof (induction n)
  case 0
  then show ?case using grid by (simp add: run_schedule_def count_hist_Nil)
next
  case (Suc n)
  let ?N = "maxIterations m"
  let ?cnt = "\<lambda>t. case t of (x, y, p) \<Rightarrow> pointInSet F p ?N"
  let ?gs = "replicate n Finished @ replicate (length tasks - n) Spawned"
  let ?h = "count_hist (map ?cnt (take n tasks)) ?N"
  from Suc obtain buf where
    st: "run_schedule F ?N tasks (concat (map (\<lambda>k. [k, k, k]) [0..<n]))
           (replicate (length tasks) Spawned, buf0, replicate (nat ?N) 0) = (?gs, buf, ?h)"
    and g: "is_grid buf (ImageWidth m) (ImageHeight m)"
    by auto
  have n: "n < length tasks" using Suc.prems by simp
  obtain x y p where t: "tasks ! n = (x, y, p)" by (cases "tasks ! n") auto
  have tok: "task_ok F m (x, y, p)" using tasks n t by (metis nth_mem)
  have sp: "?gs ! n = Spawned" using n by (simp add: nth_append)
  have len: "length ?gs = length tasks" using n by simp
  have hl: "length ?h = nat ?N" by (simp add: count_hist_def)
  let ?it = "pointInSet F p ?N"
  let ?buf = "buf[nat x := (buf ! nat x)[nat y := word_of_int ?it]]"
  have itr: "0 \<le> ?it \<and> ?it \<le> ?N" using N by (rule pointInSet_range)
  have blk: "run_schedule F ?N tasks [n, n, n] (?gs, buf, ?h) =
           (?gs[n := Finished], ?buf,
            (if ?it \<noteq> ?N then ?h[nat ?it := ?h ! nat ?it + 1] else ?h))"
    using n len sp t tok g hl N by (rule block_of_three)
  have gs': "?gs[n := Finished] = replicate (Suc n) Finished @ replicate (length tasks - Suc n) Spawned"
  proof -
    have "replicate (length tasks - n) Spawned = Spawned # replicate (length tasks - Suc n) Spawned"
      using n by (cases "length tasks - n") (auto simp: Suc_diff_Suc)
    then show ?thesis by (simp add: list_update_append replicate_append_same)
  qed
  have tk: "take (Suc n) tasks = take n tasks @ [tasks ! n]"
    using n by (rule take_Suc_conv_app_nth)
  have h': "(if ?it \<noteq> ?N then ?h[nat ?it := ?h ! nat ?it + 1] else ?h) =
            count_hist (map ?cnt (take (Suc n) tasks)) ?N"
    using count_hist_snoc[of ?it ?N "map ?cnt (take n tasks)"] itr by (simp add: tk t)
  have g': "is_grid ?buf (ImageWidth m) (ImageHeight m)"
    using g tok by (intro is_grid_update) (auto simp: task_ok_def)
  have "run_schedule F ?N tasks (concat (map (\<lambda>k. [k, k, k]) [0..<Suc n]))
           (replicate (length tasks) Spawned, buf0, replicate (nat ?N) 0) =
        run_schedule F ?N tasks [n, n, n] (?gs, buf, ?h)"
    by (simp add: run_schedule_append st [symmetric])
  also have "\<dots> = (replicate (Suc n) Finished @ replicate (length tasks - Suc n) Spawned, ?buf,
                     count_hist (map ?cnt (take (Suc n) tasks)) ?N)"
    using blk gs' h' by simp
  finally show ?case using g' by blast
qed


lemma Generate_hue_fields: "Generate_hue F m = Inr m' \<Longrightarrow> m' = m\<lparr>hue := hue m'\<rparr>"
  by (auto simp: Generate_hue_def split: sum.splits)

lemma pixel_tasks_alloc:
  "pixel_tasks F (m\<lparr>histogram := h, hue := hu\<rparr>) = pixel_tasks F m"
  by (simp add: pixel_tasks_def pixel_point_def)

lemma Generate_sequential_histogram:
  assumes wf: "wf_view m" and g: "Generate F [] m = Inr m'"
  shows "histogram m' = count_hist (pixel_counts F m) (maxIterations m)"
proof -
  let ?W = "ImageWidth m" and ?H = "ImageHeight m" and ?N = "maxIterations m"
  from wf have N: "0 \<le> ?N" and W: "0 \<le> ?W" and H: "0 \<le> ?H"
    and grid: "is_grid (buffer m) ?W ?H"
    by (auto simp: wf_view_def)
  let ?m1 = "m\<lparr>histogram := replicate (nat ?N) 0,
               hue := replicate (nat ?W) (replicate (nat ?H) (fconst F 0))\<rparr>"
  have a: "Generate_alloc F m = Inr ?m1"
    using wf Generate_Inr_allocates[OF g] by (rule Generate_alloc_ok)
  let ?tasks = "pixel_tasks F ?m1"
  let ?cnt = "\<lambda>t. case t of (x, y, p) \<Rightarrow> pointInSet F p (maxIterations ?m1)"
  have tk: "\<forall>t \<in> set ?tasks. task_ok F ?m1 t" by (rule pixel_tasks_ok)
  obtain buf where st: "run_schedule F (maxIterations ?m1) ?tasks
                          (concat (map (\<lambda>k. [k, k, k]) [0..<length ?tasks]))
                          (replicate (length ?tasks) Spawned, buffer m,
                           replicate (nat (maxIterations ?m1)) 0) =
                        (replicate (length ?tasks) Finished @ replicate (length ?tasks - length ?tasks) Spawned,
                         buf, count_hist (map ?cnt (take (length ?tasks) ?tasks)) (maxIterations ?m1))"
    using sequential_blocks[OF tk, of "buffer m" "length ?tasks"] N grid by auto
  have p: "Generate_pixels F [] ?m1 =
             Inr (?m1\<lparr>buffer := buf, histogram := count_hist (map ?cnt ?tasks) ?N\<rparr>)"
    using st by (simp add: Generate_pixels_def Let_def run_to_end_def run_schedule_def)
  obtain m2 where p2: "Generate_pixels F [] ?m1 = Inr m2" and h: "Generate_hue F m2 = Inr m'"
    using g a by (auto simp: Generate_def split: sum.splits)
  have "histogram m' = histogram m2"
    by (subst Generate_hue_fields[OF h]) simp
  also have "\<dots> = count_hist (map ?cnt ?tasks) ?N"
    using p p2 by simp
  also have "map ?cnt ?tasks = pixel_counts F m"
    by (simp add: pixel_counts_def pixel_tasks_alloc)
  finally show ?thesis .
qed

lemma sum_indicator:
  "sum_list (map (\<lambda>i. if it = int i then 1 else 0) [0..<n]) = (if 0 \<le> it \<and> it < int n then (1::nat) else 0)"
  by (induction n) auto

lemma sum_counts:
  "sum_list (map (\<lambda>i. length (filter (\<lambda>it. it = int i) its)) [0..<n]) =
     length (filter (\<lambda>it. 0 \<le> it \<and> it < int n) its)"
proof (induction its)
  case Nil
  then show ?case by simp
next
  case (Cons it its)
  have "sum_list (map (\<lambda>i. length (filter (\<lambda>it. it = int i) (it # its))) [0..<n]) =
        sum_list (map (\<lambda>i. (if it = int i then 1 else 0) + length (filter (\<lambda>it. it = int i) its)) [0..<n])"
    by (intro arg_cong[where f = sum_list] map_cong) auto
  also have "\<dots> = sum_list (map (\<lambda>i. if it = int i then 1 else 0) [0..<n])
                  + sum_list (map (\<lambda>i. length (filter (\<lambda>it. it = int i) its)) [0..<n])"
    by (simp add: sum_list_addf)
  finally show ?case
    using Cons by (simp add: sum_indicator)
qed

lemma sum_count_hist:
  assumes "length its < 2 ^ 32" and "\<forall>it \<in> set its. 0 \<le> it \<and> it \<le> N"
  shows "sum_list (map unat (count_hist its N)) = length (filter (\<lambda>it. it \<noteq> N) its)"
proof -
  have small: "length (filter (\<lambda>it. it = int i) its) < 2 ^ LENGTH(32)" for i
  proof -
    have "length (filter (\<lambda>it. it = int i) its) \<le> length its" by (rule length_filter_le)
    also have "\<dots> < 2 ^ LENGTH(32)" using assms(1) by simp
    finally show ?thesis .
  qed
  have eq: "unat (of_nat (length (filter (\<lambda>it. it = int i) its)) :: uint32) =
            length (filter (\<lambda>it. it = int i) its)" for i
    by (rule of_nat_inverse[OF refl small])
  have "map unat (count_hist its N) =
        map (\<lambda>i. length (filter (\<lambda>it. it = int i) its)) [0..<nat N]"
    unfolding count_hist_def map_map comp_def
    by (simp only: eq)
  then have "sum_list (map unat (count_hist its N)) =
             length (filter (\<lambda>it. 0 \<le> it \<and> it < int (nat N)) its)"
    by (simp add: sum_counts)
  also have "filter (\<lambda>it. 0 \<le> it \<and> it < int (nat N)) its = filter (\<lambda>it. it \<noteq> N) its"
    using assms(2) by (intro filter_cong refl) auto
  finally show ?thesis .
qed


lemma upto_map_int: "[0..int n - 1] = map int [0..<n]"
proof (induction n)
  case 0
  then show ?case by simp
next
  case (Suc n)
  have "[0..int (Suc n) - 1] = [0..int n - 1] @ [int n]"
    using upto_rec2[of 0 "int n"] by simp
  with Suc show ?case by simp
qed

lemma upto_nat: "0 \<le> W \<Longrightarrow> [0..W - 1] = map int [0..<nat W]"
  using upto_map_int[of "nat W"] by simp

lemma pixel_tasks_nat:
  assumes "0 \<le> ImageWidth m" and "0 \<le> ImageHeight m"
  shows "pixel_tasks F m =
           concat (map (\<lambda>x. map (\<lambda>y. (int x, int y, pixel_point F m (int x) (int y)))
                                  [0..<nat (ImageHeight m)])
                       [0..<nat (ImageWidth m)])"
  using assms by (simp add: pixel_tasks_def upto_nat comp_def)

lemma concat_grid_tasks:
  assumes grid: "is_grid buf (ImageWidth m) (ImageHeight m)"
    and W: "0 \<le> ImageWidth m" and H: "0 \<le> ImageHeight m"
  shows "concat buf = map (\<lambda>t. case t of (x, y, p) \<Rightarrow> buf ! nat x ! nat y) (pixel_tasks F m)"
proof -
  have col: "buf ! x = map (\<lambda>y. buf ! x ! y) [0..<nat (ImageHeight m)]"
    if "x < nat (ImageWidth m)" for x
  proof -
    have "length (buf ! x) = nat (ImageHeight m)" using grid that by (simp add: is_grid_def)
    then show ?thesis using map_nth[of "buf ! x"] by simp
  qed
  have "buf = map (\<lambda>x. buf ! x) [0..<nat (ImageWidth m)]"
    using grid map_nth[of buf] by (simp add: is_grid_def)
  also have "\<dots> = map (\<lambda>x. map (\<lambda>y. buf ! x ! y) [0..<nat (ImageHeight m)]) [0..<nat (ImageWidth m)]"
    using col by (intro map_cong refl) simp
  finally have b: "buf = map (\<lambda>x. map (\<lambda>y. buf ! x ! y) [0..<nat (ImageHeight m)])
                            [0..<nat (ImageWidth m)]" .
  have "map (\<lambda>t. case t of (x, y, p) \<Rightarrow> buf ! nat x ! nat y) (pixel_tasks F m) =
        concat (map (\<lambda>x. map (\<lambda>y. buf ! x ! y) [0..<nat (ImageHeight m)]) [0..<nat (ImageWidth m)])"
    by (simp add: pixel_tasks_nat[OF W H] map_concat comp_def)
  with b show ?thesis by simp
qed

lemma length_pixel_tasks:
  assumes "0 \<le> ImageWidth m" and "0 \<le> ImageHeight m"
  shows "length (pixel_tasks F m) = nat (ImageWidth m) * nat (ImageHeight m)"
  by (simp add: pixel_tasks_nat[OF assms] length_concat comp_def sum_list_triv)

lemma pixel_counts_range:
  "0 \<le> maxIterations m \<Longrightarrow> \<forall>it \<in> set (pixel_counts F m). 0 \<le> it \<and> it \<le> maxIterations m"
  by (auto simp: pixel_counts_def pointInSet_range)

lemma escaped_pixels_counts:
  assumes wf: "wf_view m" and g: "Generate F sched m = Inr m'" and small: "maxIterations m < 2 ^ 32"
  shows "escaped_pixels m' = length (filter (\<lambda>it. it \<noteq> maxIterations m) (pixel_counts F m))"
proof -
  let ?W = "ImageWidth m" and ?H = "ImageHeight m" and ?N = "maxIterations m"
  from wf have N: "0 \<le> ?N" and W: "0 \<le> ?W" and H: "0 \<le> ?H" by (auto simp: wf_view_def)
  from Generate_ok[OF wf Generate_Inr_allocates[OF g], of sched] g
  have wf': "wf_view m'" and dims: "ImageWidth m' = ?W" "ImageHeight m' = ?H" "maxIterations m' = ?N"
    and cells: "\<And>x y. 0 \<le> x \<and> x < ?W \<and> 0 \<le> y \<and> y < ?H \<Longrightarrow>
                 buffer m' ! nat x ! nat y = word_of_int (pointInSet F (pixel_point F m x y) ?N)"
    by auto
  have grid: "is_grid (buffer m') (ImageWidth m) (ImageHeight m)"
    using wf' dims by (simp add: wf_view_def)
  have "concat (buffer m') =
        map (\<lambda>t. case t of (x, y, p) \<Rightarrow> buffer m' ! nat x ! nat y) (pixel_tasks F m)"
    using grid W H by (rule concat_grid_tasks)
  also have "\<dots> = map (\<lambda>t. case t of (x, y, p) \<Rightarrow> (word_of_int (pointInSet F p ?N) :: uint32))
                      (pixel_tasks F m)"
  proof (intro map_cong refl)
    fix t assume "t \<in> set (pixel_tasks F m)"
    then have "task_ok F m t" using pixel_tasks_ok by blast
    then show "(case t of (x, y, p) \<Rightarrow> buffer m' ! nat x ! nat y) =
               (case t of (x, y, p) \<Rightarrow> (word_of_int (pointInSet F p ?N) :: uint32))"
      using cells by (auto simp: task_ok_def)
  qed
  also have "\<dots> = map (\<lambda>it. word_of_int it) (pixel_counts F m)"
    by (simp add: pixel_counts_def comp_def case_prod_unfold)
  finally have c: "concat (buffer m') = map (\<lambda>it. word_of_int it) (pixel_counts F m)" .
  have u: "uint (word_of_int it :: uint32) = it" if "it \<in> set (pixel_counts F m)" for it
  proof -
    have "0 \<le> it \<and> it \<le> ?N" using pixel_counts_range[OF N] that by blast
    with small show ?thesis by (simp add: uint_word_of_int take_bit_int_eq_self)
  qed
  have "escaped_pixels m' =
        length (filter (\<lambda>it. uint (word_of_int it :: uint32) \<noteq> ?N) (pixel_counts F m))"
    by (simp add: escaped_pixels_def c dims filter_map comp_def)
  also have "filter (\<lambda>it. uint (word_of_int it :: uint32) \<noteq> ?N) (pixel_counts F m) =
             filter (\<lambda>it. it \<noteq> ?N) (pixel_counts F m)"
    using u by (intro filter_cong refl) simp
  finally show ?thesis .
qed

text \<open>
  With the goroutines run one after the other, on a view of fewer than \<open>2\<^sup>3\<^sup>2\<close> pixels
  and a bound below \<open>2\<^sup>3\<^sup>2\<close>, the histogram is the one the specification describes and
  its sum is the number of pixels stored with a count other than \<open>maxIterations\<close>.
\<close>

lemma Generate_sequential_counts:
  assumes wf: "wf_view m" and g: "Generate F [] m = Inr m'"
    and pixels: "nat (ImageWidth m) * nat (ImageHeight m) < 2 ^ 32"
    and small: "maxIterations m < 2 ^ 32"
  shows "histogram m' = count_hist (pixel_counts F m) (maxIterations m)"
    and "histogram_sum m' = escaped_pixels m'"
    and "histogram_sum m' \<le> nat (ImageWidth m) * nat (ImageHeight m)"
proof -
  from wf have N: "0 \<le> maxIterations m" and W: "0 \<le> ImageWidth m" and H: "0 \<le> ImageHeight m"
    by (auto simp: wf_view_def)
  have len: "length (pixel_counts F m) = nat (ImageWidth m) * nat (ImageHeight m)"
    by (simp add: pixel_counts_def length_pixel_tasks[OF W H])
  show h: "histogram m' = count_hist (pixel_counts F m) (maxIterations m)"
    using wf g by (rule Generate_sequential_histogram)
  have s: "histogram_sum m' = length (filter (\<lambda>it. it \<noteq> maxIterations m) (pixel_counts F m))"
    unfolding histogram_sum_def h
    using pixels pixel_counts_range[OF N] by (intro sum_count_hist) (simp_all add: len)
  with escaped_pixels_counts[OF wf g small] show "histogram_sum m' = escaped_pixels m'"
    by simp
  have "length (filter (\<lambda>it. it \<noteq> maxIterations m) (pixel_counts F m)) \<le> length (pixel_counts F m)"
    by (rule length_filter_le)
  with s len show "histogram_sum m' \<le> nat (ImageWidth m) * nat (ImageHeight m)"
    by simp
qed

section \<open>The histogram and the hues after Generate\<close>

lemma spec_hue_step:
  assumes "0 < unat v"
  shows "spec_hue F hist tot v =
           fadd F (spec_hue F hist tot (v - 1))
             (fdiv F (f_of_int F (uint (hist ! (unat v - 1)))) (f_of_int F (uint tot)))"
proof -
  have "v \<noteq> 0" using assms by (simp add: unat_gt_0)
  then have "unat (v - 1) = unat v - 1" by (simp add: unat_minus_one)
  moreover obtain n where n: "unat v = Suc n" using assms by (cases "unat v") auto
  ultimately show ?thesis
    by (simp add: spec_hue_def hue_from_def hue_term_def)
qed

lemma spec_hue_zero: "spec_hue F hist tot 0 = fconst F 0"
  by (simp add: spec_hue_def hue_from_def)

lemma sum_unat_one_slot:
  "0 < n \<Longrightarrow> sum_list (map unat ((replicate n (0::uint32))[0 := c])) = unat c"
  by (cases n) simp_all

text \<open>
  C1 at a failing input. \<^verbatim>\<open>Create(2, 1, 10 + 1i)\<close> has two pixels, at \<open>8\<close> and at \<open>10\<close>, and
  both escape at step 0. A first \<^verbatim>\<open>Generate\<close> in which the two goroutines run one after
  the other leaves 2 in slot 0 of the histogram; a second \<^verbatim>\<open>Generate\<close> on the same view,
  configuration unchanged, in which both goroutines read slot 0 before either writes
  it, leaves 1: the histograms of the two calls differ.
\<close>

theorem Generate_histogram_race:
  "(case Create ideal 2 1 (Fin 10, Fin 1) of
      Inl e \<Rightarrow> False
    | Inr m \<Rightarrow>
        (case Generate ideal [] m of
           Inl e \<Rightarrow> False
         | Inr m1 \<Rightarrow>
             (case Generate ideal [0, 1, 0, 1, 0, 1] m1 of
                Inl e \<Rightarrow> False
              | Inr m2 \<Rightarrow>
                  GetMaxIterations m1 = 1000 \<and> GetMaxIterations m2 = 1000
                \<and> GetZoom m2 = GetZoom m1 \<and> GetBounds m2 = GetBounds m1
                \<and> GetBuffer m1 = [[0], [0]] \<and> GetBuffer m2 = [[0], [0]]
                \<and> GetHistogram m1 ! 0 = 2 \<and> GetHistogram m2 ! 0 = 1
                \<and> GetHistogram m1 \<noteq> GetHistogram m2)))"
proof -
  let ?m = "\<lparr>ImageWidth = 2, ImageHeight = 1, center = (Fin 10, Fin 1), zoomLevel = Fin (1/2),
          maxIterations = 1000, buffer = [[0], [0]], minX = Fin 8, minY = Fin 0, maxX = Fin 12,
          maxY = Fin 2, histogram = replicate 1000 0, hue = []\<rparr>"
  let ?m1 = "?m\<lparr>buffer := [[0], [0]], histogram := (replicate (nat 1000) 0)[0 := 2],
               hue := [[Fin 0], [Fin 0]]\<rparr>"
  let ?m2 = "?m1\<lparr>buffer := [[0], [0]], histogram := (replicate (nat 1000) 0)[0 := 1],
               hue := [[Fin 0], [Fin 0]]\<rparr>"
  have g1: "Generate ideal [] ?m = Inr ?m1"
    by (rule two_pixel_view[where N = 1000 and ?b0.0 = 0 and ?b1.0 = 0])
       (use two_pool(1)[OF _ _ refl, of 1000 1000 0 0] in simp_all)
  have g2: "Generate ideal [0, 1, 0, 1, 0, 1] ?m1 = Inr ?m2"
    by (rule two_pixel_view[where N = 1000 and ?b0.0 = 0 and ?b1.0 = 0])
       (use two_pool(2)[OF _ _ refl, of 1000 1000 0 0] in simp_all)
  have "(replicate (nat 1000) (0::uint32))[0 := 2] ! 0 \<noteq> (replicate (nat 1000) 0)[0 := 1] ! 0"
    by simp
  then have ne: "(replicate (nat 1000) (0::uint32))[0 := 2] \<noteq> (replicate (nat 1000) 0)[0 := 1]"
    by metis
  show ?thesis
    unfolding Create_2x1_at_10_1 sum.case g1 g2
    using ne by (simp add: GetMaxIterations_def GetZoom_def GetBounds_def GetBuffer_def
        GetHistogram_def)
qed

text \<open>
  C6 at a failing input. On the view of \<^verbatim>\<open>Create(2, 1, 10 + 1i)\<close>, in a run of \<^verbatim>\<open>Generate\<close>
  where each goroutine reads slot 0 before the other has written it, both pixels are
  stored with a count other than \<open>maxIterations\<close> and the histogram sums to 1. With the
  goroutines run one after the other the sum is the number of such pixels
  (\<open>Generate_sequential_counts\<close>).
\<close>

theorem histogram_sum_lost_update:
  "(case Create ideal 2 1 (Fin 10, Fin 1) of
      Inl e \<Rightarrow> False
    | Inr m \<Rightarrow>
        (case Generate ideal [0, 1, 1, 0, 0, 1] m of
           Inl e \<Rightarrow> False
         | Inr m' \<Rightarrow>
             GetMaxIterations m' = 1000 \<and> GetBuffer m' = [[0], [0]]
           \<and> escaped_pixels m' = 2 \<and> histogram_sum m' = 1))"
proof -
  let ?m = "\<lparr>ImageWidth = 2, ImageHeight = 1, center = (Fin 10, Fin 1), zoomLevel = Fin (1/2),
          maxIterations = 1000, buffer = [[0], [0]], minX = Fin 8, minY = Fin 0, maxX = Fin 12,
          maxY = Fin 2, histogram = replicate 1000 0, hue = []\<rparr>"
  let ?m1 = "?m\<lparr>buffer := [[0], [0]], histogram := (replicate (nat 1000) 0)[0 := 1],
               hue := [[Fin 0], [Fin 0]]\<rparr>"
  have g: "Generate ideal [0, 1, 1, 0, 0, 1] ?m = Inr ?m1"
    by (rule two_pixel_view[where N = 1000 and ?b0.0 = 0 and ?b1.0 = 0])
       (use two_pool(3)[OF _ _ refl, of 1000 1000 0 0] in simp_all)
  show ?thesis
    unfolding Create_2x1_at_10_1 sum.case g
    by (simp add: GetMaxIterations_def GetBuffer_def escaped_pixels_def histogram_sum_def
        sum_unat_one_slot)
qed


text \<open>
  C9. On a well-formed view for which \<^verbatim>\<open>make\<close> allocates the histogram and the hue map,
  \<^verbatim>\<open>Generate\<close> returns, under every schedule, and the hue of
  every pixel whose count \<open>v\<close> is positive is the sum so far plus
  \<open>histogram[v - 1] / total\<close>: the division is made whatever \<open>total\<close> is. On the view of
  \<^verbatim>\<open>Create(1, 1, 2 + 2i)\<close>, whose only pixel is the origin, every run of \<^verbatim>\<open>Generate\<close> stores
  the count 1000 = \<open>maxIterations\<close> and leaves the histogram at zero: \<open>total\<close> is 0, the
  division is 0/0 = NaN, and the hue of the pixel is NaN, which is not in \<open>[0, 1]\<close>.
\<close>

theorem hue_division_unguarded:
  "(wf_view m \<and> Generate_allocates F m \<longrightarrow>
      (\<exists>m'. Generate F sched m = Inr m' \<and>
         (\<forall>x y. 0 \<le> x \<and> x < ImageWidth m \<and> 0 \<le> y \<and> y < ImageHeight m
                \<and> 0 < unat (GetBuffer m' ! nat x ! nat y)
            \<longrightarrow> GetHue m' ! nat x ! nat y =
                  fadd F (spec_hue F (GetHistogram m')
                            (spec_total (GetHistogram m') (GetMaxIterations m'))
                            (GetBuffer m' ! nat x ! nat y - 1))
                    (fdiv F (f_of_int F (uint (GetHistogram m' ! (unat (GetBuffer m' ! nat x ! nat y) - 1))))
                       (f_of_int F (uint (spec_total (GetHistogram m') (GetMaxIterations m'))))))))
   \<and> (case Create ideal 1 1 (Fin 2, Fin 2) of
         Inl e \<Rightarrow> False
       | Inr v \<Rightarrow>
           (case Generate ideal sched' v of
              Inl e \<Rightarrow> False
            | Inr v' \<Rightarrow>
                GetMaxIterations v' = 1000 \<and> GetBuffer v' = [[1000]]
              \<and> spec_total (GetHistogram v') 1000 = 0
              \<and> fdiv ideal (f_of_int ideal (uint (GetHistogram v' ! 999)))
                            (f_of_int ideal (uint (spec_total (GetHistogram v') 1000))) = NaN
              \<and> GetHue v' = [[NaN]]
              \<and> \<not> in_unit_interval ideal (GetHue v' ! 0 ! 0)))"
proof (intro conjI impI)
  assume "wf_view m \<and> Generate_allocates F m"
  then obtain m' where g: "Generate F sched m = Inr m'"
    using Generate_ok[of m F sched] by blast
  have "GetHue m' ! nat x ! nat y =
          fadd F (spec_hue F (GetHistogram m') (spec_total (GetHistogram m') (GetMaxIterations m'))
                    (GetBuffer m' ! nat x ! nat y - 1))
            (fdiv F (f_of_int F (uint (GetHistogram m' ! (unat (GetBuffer m' ! nat x ! nat y) - 1))))
               (f_of_int F (uint (spec_total (GetHistogram m') (GetMaxIterations m')))))"
    if h: "0 \<le> x \<and> x < ImageWidth m \<and> 0 \<le> y \<and> y < ImageHeight m
           \<and> 0 < unat (GetBuffer m' ! nat x ! nat y)" for x y
  proof -
    have "hue m' ! nat x ! nat y =
           spec_hue F (histogram m') (spec_total (histogram m') (maxIterations m'))
             (buffer m' ! nat x ! nat y)"
      using g h by (intro Generate_cells[where sched = sched and m = m]) simp_all
    also have "\<dots> = fadd F (spec_hue F (histogram m') (spec_total (histogram m') (maxIterations m'))
                    (buffer m' ! nat x ! nat y - 1))
                 (fdiv F (f_of_int F (uint (histogram m' ! (unat (buffer m' ! nat x ! nat y) - 1))))
                         (f_of_int F (uint (spec_total (histogram m') (maxIterations m')))))"
      using h by (intro spec_hue_step) (simp add: GetBuffer_def)
    finally show ?thesis
      by (simp add: GetHue_def GetHistogram_def GetBuffer_def GetMaxIterations_def)
  qed
  with g show "\<exists>m'. Generate F sched m = Inr m' \<and>
         (\<forall>x y. 0 \<le> x \<and> x < ImageWidth m \<and> 0 \<le> y \<and> y < ImageHeight m
                \<and> 0 < unat (GetBuffer m' ! nat x ! nat y)
            \<longrightarrow> GetHue m' ! nat x ! nat y =
                  fadd F (spec_hue F (GetHistogram m')
                            (spec_total (GetHistogram m') (GetMaxIterations m'))
                            (GetBuffer m' ! nat x ! nat y - 1))
                    (fdiv F (f_of_int F (uint (GetHistogram m' ! (unat (GetBuffer m' ! nat x ! nat y) - 1))))
                       (f_of_int F (uint (spec_total (GetHistogram m') (GetMaxIterations m'))))))"
    by blast
next
  let ?v = "\<lparr>ImageWidth = 1, ImageHeight = 1, center = (Fin 2, Fin 2), zoomLevel = Fin (1/2),
          maxIterations = 1000, buffer = [[0]], minX = Fin 0, minY = Fin 0, maxX = Fin 4,
          maxY = Fin 4, histogram = replicate 1000 0, hue = []\<rparr>"
  let ?v' = "?v\<lparr>buffer := [[word_of_int 1000]], histogram := replicate (nat 1000) 0, hue := [[NaN]]\<rparr>"
  have g: "Generate ideal sched' ?v = Inr ?v'"
    by (rule all_in_set_view[where b = 0]) simp_all
  show "case Create ideal 1 1 (Fin 2, Fin 2) of
         Inl e \<Rightarrow> False
       | Inr v \<Rightarrow>
           (case Generate ideal sched' v of
              Inl e \<Rightarrow> False
            | Inr v' \<Rightarrow>
                GetMaxIterations v' = 1000 \<and> GetBuffer v' = [[1000]]
              \<and> spec_total (GetHistogram v') 1000 = 0
              \<and> fdiv ideal (f_of_int ideal (uint (GetHistogram v' ! 999)))
                            (f_of_int ideal (uint (spec_total (GetHistogram v') 1000))) = NaN
              \<and> GetHue v' = [[NaN]]
              \<and> \<not> in_unit_interval ideal (GetHue v' ! 0 ! 0))"
    unfolding Create_1x1_at_2_2 sum.case g
    by (simp add: GetMaxIterations_def GetBuffer_def GetHistogram_def GetHue_def spec_total_def
        sum_list_zeros in_unit_interval_def)
qed

theorem hue_division_unguarded_witness:
  "(case Create ideal 1 1 (Fin 2, Fin 2) of
      Inl e \<Rightarrow> False
    | Inr v \<Rightarrow>
        wf_view v \<and> Generate_allocates ideal v \<and>
        (\<exists>v'. Generate ideal [] v = Inr v' \<and>
           (\<forall>x y. 0 \<le> x \<and> x < ImageWidth v \<and> 0 \<le> y \<and> y < ImageHeight v
                  \<and> 0 < unat (GetBuffer v' ! nat x ! nat y)
              \<longrightarrow> GetHue v' ! nat x ! nat y =
                    fadd ideal (spec_hue ideal (GetHistogram v')
                                  (spec_total (GetHistogram v') (GetMaxIterations v'))
                                  (GetBuffer v' ! nat x ! nat y - 1))
                      (fdiv ideal (f_of_int ideal (uint (GetHistogram v' ! (unat (GetBuffer v' ! nat x ! nat y) - 1))))
                         (f_of_int ideal (uint (spec_total (GetHistogram v') (GetMaxIterations v'))))))))"
proof -
  let ?v = "\<lparr>ImageWidth = 1, ImageHeight = 1, center = (Fin 2, Fin 2), zoomLevel = Fin (1/2),
          maxIterations = 1000, buffer = [[0]], minX = Fin 0, minY = Fin 0, maxX = Fin 4,
          maxY = Fin 4, histogram = replicate 1000 0, hue = []\<rparr>"
  have wf: "wf_view ?v \<and> Generate_allocates ideal ?v"
    by (simp add: wf_view_def is_grid_def Generate_allocates_def makes_ideal_small)
  note w = hue_division_unguarded [of ?v ideal "[]", THEN conjunct1, rule_format, OF wf]
  show ?thesis
    unfolding Create_1x1_at_2_2 sum.case
    using wf w by blast
qed

text \<open>
  C5 at a failing input. The view of \<^verbatim>\<open>Create(1, 1, 2 + 2i)\<close> with \<open>maxIterations\<close> set to 3
  has one pixel, the origin, which is in the set: after \<^verbatim>\<open>Generate\<close> its count is 3, the
  histogram is \<open>[0, 0, 0]\<close> and \<open>total\<close> is 0. The hue of the pixel is the sum the claim
  describes, \<open>0/0 + 0/0 + 0/0\<close> added to 0.0, which is NaN: it is not in \<open>[0, 1]\<close>. The
  sum is the one of the claim on every view and in every arithmetic (\<open>Generate_cells\<close>);
  what the program lacks is a guard on \<open>total\<close>.
\<close>

theorem hue_outside_unit_interval:
  "(case Create ideal 1 1 (Fin 2, Fin 2) of
      Inl e \<Rightarrow> False
    | Inr m \<Rightarrow>
        (case SetMaxIterations ideal m 3 of
           Inl e \<Rightarrow> False
         | Inr m1 \<Rightarrow>
             (case Generate ideal [] m1 of
                Inl e \<Rightarrow> False
              | Inr m2 \<Rightarrow>
                  GetMaxIterations m2 = 3 \<and> GetBuffer m2 = [[3]] \<and> GetHistogram m2 = [0, 0, 0]
                \<and> spec_total (GetHistogram m2) 3 = 0
                \<and> GetHue m2 ! 0 ! 0 = spec_hue ideal (GetHistogram m2) 0 3
                \<and> GetHue m2 = [[NaN]]
                \<and> \<not> in_unit_interval ideal (GetHue m2 ! 0 ! 0))))"
proof -
  let ?m1 = "\<lparr>ImageWidth = 1, ImageHeight = 1, center = (Fin 2, Fin 2), zoomLevel = Fin (1/2),
          maxIterations = 3, buffer = [[0]], minX = Fin 0, minY = Fin 0, maxX = Fin 4,
          maxY = Fin 4, histogram = replicate (nat 3) 0, hue = []\<rparr>"
  let ?m2 = "?m1\<lparr>buffer := [[word_of_int 3]], histogram := replicate (nat 3) 0, hue := [[NaN]]\<rparr>"
  have s: "SetMaxIterations ideal \<lparr>ImageWidth = 1, ImageHeight = 1, center = (Fin 2, Fin 2),
          zoomLevel = Fin (1/2), maxIterations = 1000, buffer = [[0]], minX = Fin 0, minY = Fin 0,
          maxX = Fin 4, maxY = Fin 4, histogram = replicate 1000 0, hue = []\<rparr> 3 = Inr ?m1"
    by (simp add: SetMaxIterations_ok makes_ideal_small)
  have g: "Generate ideal [] ?m1 = Inr ?m2"
    by (rule all_in_set_view[where b = 0]) simp_all
  have u: "[0..<unat (3::uint32)] = [0, 1, 2]"
    by (simp add: upt_rec)
  have h: "spec_hue ideal [0, 0, 0] 0 3 = NaN"
    unfolding spec_hue_def hue_from_def u by (simp add: hue_term_def)
  show ?thesis
    unfolding Create_1x1_at_2_2 sum.case s g
    by (simp add: GetMaxIterations_def GetBuffer_def GetHistogram_def GetHue_def
        in_unit_interval_def spec_total_def h numeral_3_eq_3)
qed

end
